theory Spec2Isabelle
  imports Main
begin

section \<open>Values of the Go program\<close>

text \<open>
  An \<^verbatim>\<open>error\<close> value is either one made by \<^verbatim>\<open>errors.New(text)\<close> or one made by
  \<^verbatim>\<open>fmt.Errorf("%s: %w", annotation, err)\<close>, which wraps \<^verbatim>\<open>err\<close>. The nil error is
  \<open>None\<close> of \<open>error option\<close>.
\<close>

datatype error = New string | Errorf string error

text \<open>\<^verbatim>\<open>ErrTimeout = errors.New("timeout expired")\<close> (state.go).\<close>

definition ErrTimeout :: error where
  "ErrTimeout = New ''timeout expired''"

text \<open>The text of an error (its \<^verbatim>\<open>Error()\<close> method) and \<^verbatim>\<open>errors.Is\<close> along the wrap chain.\<close>

fun Error_text :: "error \<Rightarrow> string" where
  "Error_text (New m) = m"
| "Error_text (Errorf a e) = a @ '': '' @ Error_text e"

fun Is :: "error \<Rightarrow> error \<Rightarrow> bool" where
  "Is (New m) target = (New m = target)"
| "Is (Errorf a e) target = (Errorf a e = target \<or> Is e target)"

text \<open>
  A non-nil \<^verbatim>\<open>interface{}\<close> value is a dynamic type with the representation of the value;
  nil is \<open>None\<close>. \<open>Comparable\<close> is \<^verbatim>\<open>reflect.Type.Comparable\<close> of the Go library: functions,
  slices and maps are not comparable, an array is when its elements are, a struct when all
  its fields are.
\<close>

datatype gotype =
    BoolT | IntT | StringT | NamedT string gotype | PointerT gotype | ChanT gotype | InterfaceT
  | FuncT | SliceT gotype | MapT gotype gotype | ArrayT nat gotype | StructT "gotype list"

fun Comparable :: "gotype \<Rightarrow> bool" where
  "Comparable FuncT = False"
| "Comparable (SliceT t) = False"
| "Comparable (MapT k v) = False"
| "Comparable (ArrayT n t) = Comparable t"
| "Comparable (StructT ts) = list_all Comparable ts"
| "Comparable (NamedT n t) = Comparable t"
| "Comparable t = True"

type_synonym any = "(gotype \<times> nat) option"

text \<open>
  A channel of type \<^verbatim>\<open>chan struct{}\<close> that is only ever closed: \<open>closedchan\<close> is the
  package's reusable closed channel, \<open>Chan n\<close> the \<open>n\<close>-th channel made by \<^verbatim>\<open>make\<close>.
\<close>

datatype chan = closedchan | Chan nat

section \<open>The tree of states\<close>

text \<open>
  \<^verbatim>\<open>type group struct { states []State; toClose map[int]struct{}; done, finished chan struct{} }\<close>.
  The keys of \<^verbatim>\<open>toClose\<close> are kept as a list without duplicates. The lazily built
  \<^verbatim>\<open>ready\<close> channels of the package are left out: no property below reads them.
\<close>

datatype 's group =
  G (g_states: "'s list") (g_toClose: "nat list") (g_done: chan) (g_finished: chan)

text \<open>One constructor per implementation of the \<^verbatim>\<open>State\<close> interface.\<close>

datatype state =
    emptyState
  | groupState "state group"
  | shutdownState "state group" chan chan
  | waitState "state group" int
  | errState "state group" "error option"
  | errGroupState "state group" "error option"
  | valueState "state group" any any
  | readinessState "state group" chan
  | dependState "state group" state chan
  | annotationState "state group" string

text \<open>
  The fields after the group are: \<open>shutdownState\<close> the \<^verbatim>\<open>end\<close> and \<^verbatim>\<open>done\<close> channels;
  \<open>waitState\<close> the counter of the embedded \<^verbatim>\<open>sync.WaitGroup\<close>; \<open>errState\<close> and
  \<open>errGroupState\<close> the error; \<open>valueState\<close> key and value; \<open>readinessState\<close> the
  \<^verbatim>\<open>ready\<close> channel; \<open>dependState\<close> (whose group is \<^verbatim>\<open>children\<close>) the parent and the
  \<^verbatim>\<open>finished\<close> channel; \<open>annotationState\<close> the annotation.
\<close>

text \<open>
  The loop \<^verbatim>\<open>for _, s := range xs { if r := f(s); r != nil { return r } }; return nil\<close>,
  on the list of the results.
\<close>

fun first_non_nil :: "'a option list \<Rightarrow> 'a option" where
  "first_non_nil [] = None"
| "first_non_nil (None # rs) = first_non_nil rs"
| "first_non_nil (Some r # rs) = Some r"

subsection \<open>Err\<close>

fun Err :: "state \<Rightarrow> error option" where
  "Err emptyState = None"
| "Err (groupState (G ss tc d f)) = first_non_nil (map Err ss)"
| "Err (shutdownState (G ss tc d f) e dn) = first_non_nil (map Err ss)"
| "Err (waitState (G ss tc d f) n) = first_non_nil (map Err ss)"
| "Err (errState g err) = err"
| "Err (errGroupState g err) = err"
| "Err (valueState (G ss tc d f) k v) = first_non_nil (map Err ss)"
| "Err (readinessState (G ss tc d f) r) = first_non_nil (map Err ss)"
| "Err (dependState (G ss tc d f) parent fin) =
     (case Err parent of Some err \<Rightarrow> Some err | None \<Rightarrow> first_non_nil (map Err ss))"
| "Err (annotationState (G ss tc d f) a) =
     (case first_non_nil (map Err ss) of Some err \<Rightarrow> Some (Errorf a err) | None \<Rightarrow> None)"

text \<open>\<^verbatim>\<open>func (e *errGroupState) Error(err error)\<close>: assigns under the lock, once.\<close>

fun errGroupState_Error :: "state \<Rightarrow> error option \<Rightarrow> state" where
  "errGroupState_Error (errGroupState g cur) err =
     (if err \<noteq> None then (if cur = None then errGroupState g err else errGroupState g cur)
      else errGroupState g cur)"

subsection \<open>Value\<close>

fun Value :: "state \<Rightarrow> any \<Rightarrow> any" where
  "Value emptyState key = None"
| "Value (groupState (G ss tc d f)) key = first_non_nil (map (\<lambda>s. Value s key) ss)"
| "Value (shutdownState (G ss tc d f) e dn) key = first_non_nil (map (\<lambda>s. Value s key) ss)"
| "Value (waitState (G ss tc d f) n) key = first_non_nil (map (\<lambda>s. Value s key) ss)"
| "Value (errState (G ss tc d f) err) key = first_non_nil (map (\<lambda>s. Value s key) ss)"
| "Value (errGroupState (G ss tc d f) err) key = first_non_nil (map (\<lambda>s. Value s key) ss)"
| "Value (valueState (G ss tc d f) k v) key =
     (if k = key then v else first_non_nil (map (\<lambda>s. Value s key) ss))"
| "Value (readinessState (G ss tc d f) r) key = first_non_nil (map (\<lambda>s. Value s key) ss)"
| "Value (dependState (G ss tc d f) parent fin) key =
     (case Value parent key of Some v \<Rightarrow> Some v
      | None \<Rightarrow> first_non_nil (map (\<lambda>s. Value s key) ss))"
| "Value (annotationState (G ss tc d f) a) key = first_non_nil (map (\<lambda>s. Value s key) ss)"

subsection \<open>Wait\<close>

text \<open>The ways the modelled code can panic.\<close>

datatype panic =
    nil_state_value_key | state_value_key_is_not_comparable
  | negative_WaitGroup_counter | index_out_of_range | close_of_closed_channel

text \<open>
  \<^verbatim>\<open>sync.WaitGroup\<close> of the Go library, on its counter: \<^verbatim>\<open>Add(delta)\<close> adds \<open>delta\<close> and
  panics when the counter becomes negative, \<^verbatim>\<open>Done()\<close> is \<^verbatim>\<open>Add(-1)\<close>, \<^verbatim>\<open>Wait()\<close> blocks
  until the counter is zero. \<open>waitState\<close> embeds the wait group, so its tail's \<^verbatim>\<open>Add\<close> and
  \<^verbatim>\<open>Done\<close> are the wait group's.
\<close>

definition WaitGroup_Add :: "int \<Rightarrow> int \<Rightarrow> panic + int" where
  "WaitGroup_Add n delta =
     (if n + delta < 0 then Inl negative_WaitGroup_counter else Inr (n + delta))"

fun waitState_Add :: "state \<Rightarrow> int \<Rightarrow> panic + state" where
  "waitState_Add (waitState g n) i =
     (case WaitGroup_Add n i of Inl p \<Rightarrow> Inl p | Inr n' \<Rightarrow> Inr (waitState g n'))"

fun waitState_Done :: "state \<Rightarrow> panic + state" where
  "waitState_Done (waitState g n) =
     (case WaitGroup_Add n (- 1) of Inl p \<Rightarrow> Inl p | Inr n' \<Rightarrow> Inr (waitState g n'))"

text \<open>
  \<open>Wait_returns s\<close>: a call of \<^verbatim>\<open>s.Wait()\<close> returns with the counters as they are in \<open>s\<close>
  (it blocks otherwise). \<^verbatim>\<open>waitState.Wait\<close> waits for its own counter, then for the group;
  \<^verbatim>\<open>group.Wait\<close> for each child in turn; \<^verbatim>\<open>dependState.Wait\<close> for the children, then the
  parent.
\<close>

fun Wait_returns :: "state \<Rightarrow> bool" where
  "Wait_returns emptyState = True"
| "Wait_returns (groupState (G ss tc d f)) = list_all Wait_returns ss"
| "Wait_returns (shutdownState (G ss tc d f) e dn) = list_all Wait_returns ss"
| "Wait_returns (waitState (G ss tc d f) n) = (n = 0 \<and> list_all Wait_returns ss)"
| "Wait_returns (errState (G ss tc d f) err) = list_all Wait_returns ss"
| "Wait_returns (errGroupState (G ss tc d f) err) = list_all Wait_returns ss"
| "Wait_returns (valueState (G ss tc d f) k v) = list_all Wait_returns ss"
| "Wait_returns (readinessState (G ss tc d f) r) = list_all Wait_returns ss"
| "Wait_returns (dependState (G ss tc d f) parent fin) =
     (list_all Wait_returns ss \<and> Wait_returns parent)"
| "Wait_returns (annotationState (G ss tc d f) a) = list_all Wait_returns ss"

section \<open>The closer capability\<close>

text \<open>A channel is closed when it is \<open>closedchan\<close> or one of the made channels closed so far.\<close>

fun is_closed :: "nat set \<Rightarrow> chan \<Rightarrow> bool" where
  "is_closed F closedchan = True"
| "is_closed F (Chan n) = (n \<in> F)"

fun finishSig :: "state \<Rightarrow> chan" where
  "finishSig emptyState = closedchan"
| "finishSig (groupState g) = g_finished g"
| "finishSig (shutdownState g e dn) = dn"
| "finishSig (waitState g n) = g_finished g"
| "finishSig (errState g err) = g_finished g"
| "finishSig (errGroupState g err) = g_finished g"
| "finishSig (valueState g k v) = g_finished g"
| "finishSig (readinessState g r) = g_finished g"
| "finishSig (dependState g parent fin) = fin"
| "finishSig (annotationState g a) = g_finished g"

text \<open>
  \<^verbatim>\<open>cause()\<close>, with \<open>F\<close> the made channels that are closed when it inspects the tree. (The
  walk returns at the first channel it finds open, and a closed channel stays closed, so its
  result is the one of a walk over the channels as they are at its last receive.)
\<close>

fun cause :: "nat set \<Rightarrow> state \<Rightarrow> error option" where
  "cause F emptyState = None"
| "cause F (groupState (G ss tc d f)) = first_non_nil (map (cause F) ss)"
| "cause F (shutdownState (G ss tc d f) e dn) =
     (case first_non_nil (map (cause F) ss) of
        Some err \<Rightarrow> Some err
      | None \<Rightarrow> if is_closed F dn then None else Some ErrTimeout)"
| "cause F (waitState (G ss tc d f) n) = first_non_nil (map (cause F) ss)"
| "cause F (errState (G ss tc d f) err) = first_non_nil (map (cause F) ss)"
| "cause F (errGroupState (G ss tc d f) err) = first_non_nil (map (cause F) ss)"
| "cause F (valueState (G ss tc d f) k v) = first_non_nil (map (cause F) ss)"
| "cause F (readinessState (G ss tc d f) r) = first_non_nil (map (cause F) ss)"
| "cause F (dependState (G ss tc d f) parent fin) =
     (case first_non_nil (map (cause F) ss) of
        Some err \<Rightarrow> Some err
      | None \<Rightarrow> (case cause F parent of Some err \<Rightarrow> Some err | None \<Rightarrow> None))"
| "cause F (annotationState (G ss tc d f) a) =
     (case first_non_nil (map (cause F) ss) of
        Some err \<Rightarrow> Some (Errorf a err)
      | None \<Rightarrow> None)"

text \<open>
  \<^verbatim>\<open>func shutdown(ctx, c)\<close> after its \<^verbatim>\<open>go c.close()\<close>: the \<^verbatim>\<open>select\<close> statement. \<open>F\<close> are
  the made channels closed when the select is decided, \<open>expired\<close> says whether
  \<^verbatim>\<open>ctx.Done()\<close> is closed then, \<open>pick\<close> is the case Go chooses when both are ready, and
  \<open>F'\<close> are the channels closed when \<^verbatim>\<open>cause()\<close> inspects the tree.
\<close>

datatype select_case = case_finishSig | case_ctx_Done

datatype 'a outcome = Blocks | Returns 'a

definition shutdown ::
  "nat set \<Rightarrow> bool \<Rightarrow> select_case \<Rightarrow> nat set \<Rightarrow> state \<Rightarrow> error option outcome" where
  "shutdown F expired pick F' c =
     (if is_closed F (finishSig c) \<and> (\<not> expired \<or> pick = case_finishSig) then Returns None
      else if expired then Returns (cause F' c)
      else Blocks)"

text \<open>
  The \<^verbatim>\<open>Shutdown\<close> method of each implementation. The states that embed \<^verbatim>\<open>*group\<close> and
  have no \<^verbatim>\<open>Shutdown\<close> of their own call \<^verbatim>\<open>group.Shutdown\<close>, which passes the group as the
  closer.
\<close>

fun Shutdown ::
  "nat set \<Rightarrow> bool \<Rightarrow> select_case \<Rightarrow> nat set \<Rightarrow> state \<Rightarrow> error option outcome" where
  "Shutdown F expired pick F' emptyState = Returns None"
| "Shutdown F expired pick F' (groupState g) = shutdown F expired pick F' (groupState g)"
| "Shutdown F expired pick F' (shutdownState g e dn) =
     shutdown F expired pick F' (shutdownState g e dn)"
| "Shutdown F expired pick F' (waitState g n) = shutdown F expired pick F' (groupState g)"
| "Shutdown F expired pick F' (errState g err) = shutdown F expired pick F' (groupState g)"
| "Shutdown F expired pick F' (errGroupState g err) =
     shutdown F expired pick F' (groupState g)"
| "Shutdown F expired pick F' (valueState g k v) = shutdown F expired pick F' (groupState g)"
| "Shutdown F expired pick F' (readinessState g r) =
     shutdown F expired pick F' (groupState g)"
| "Shutdown F expired pick F' (dependState g parent fin) =
     shutdown F expired pick F' (dependState g parent fin)"
| "Shutdown F expired pick F' (annotationState g a) =
     (case shutdown F expired pick F' (groupState g) of
        Returns (Some err) \<Rightarrow> Returns (Some (Errorf a err))
      | Returns None \<Rightarrow> Returns None
      | Blocks \<Rightarrow> Blocks)"

section \<open>Goroutines\<close>

text \<open>
  What a goroutine of the package does, as a list of commands:
  \<^item> \<open>Recv c\<close> is \<^verbatim>\<open><-c\<close>: it blocks until \<open>c\<close> is closed;
  \<^item> \<open>Close c\<close> is \<^verbatim>\<open>close(c)\<close>: it panics when \<open>c\<close> is closed already;
  \<^item> \<open>Once c body\<close> is, under the state's lock,
    \<^verbatim>\<open>select { case <-c: return; default: close(c) }\<close> followed by \<open>body\<close>, the rest of the
    function: when \<open>c\<close> is closed the function returns to its caller;
  \<^item> \<open>Go p\<close> is \<^verbatim>\<open>go\<close>: it starts a goroutine that runs \<open>p\<close>;
  \<^item> \<open>ForRange keys cs\<close> is the loop \<^verbatim>\<open>for i := range toClose { <-states[i].finishSig() ... }\<close>
    with the keys still to visit and the \<^verbatim>\<open>finishSig()\<close> of each element of \<^verbatim>\<open>states\<close>.
\<close>

datatype cmd =
    Recv chan
  | Close chan
  | Once chan "cmd list"
  | Go "cmd list"
  | ForRange "nat list" "chan list"

text \<open>\<^verbatim>\<open>func (g *group) close()\<close>.\<close>

definition group_close :: "state group \<Rightarrow> cmd list" where
  "group_close g =
     [Once (g_done g) [ForRange (g_toClose g) (map finishSig (g_states g)), Close (g_finished g)]]"

text \<open>
  The \<^verbatim>\<open>close()\<close> of each implementation: \<^verbatim>\<open>emptyState.close\<close> does nothing;
  \<^verbatim>\<open>shutdownState.close\<close> runs the group's close in a goroutine, waits for the group and
  closes \<^verbatim>\<open>end\<close> once; \<^verbatim>\<open>dependState.close\<close> closes the children, waits for them, closes the
  parent, waits for it and calls \<^verbatim>\<open>Done()\<close>, which closes \<^verbatim>\<open>finished\<close> once; every other
  state has the close of its embedded group.
\<close>

fun close :: "state \<Rightarrow> cmd list" where
  "close emptyState = []"
| "close (groupState g) = group_close g"
| "close (shutdownState g e dn) = [Go (group_close g), Recv (g_finished g), Once e []]"
| "close (waitState g n) = group_close g"
| "close (errState g err) = group_close g"
| "close (errGroupState g err) = group_close g"
| "close (valueState g k v) = group_close g"
| "close (readinessState g r) = group_close g"
| "close (dependState g parent fin) =
     group_close g @ [Recv (g_finished g)] @ close parent @
     [Recv (finishSig parent), Once fin []]"
| "close (annotationState g a) = group_close g"

text \<open>\<^verbatim>\<open>func (s *shutdownState) Done()\<close> and \<^verbatim>\<open>End()\<close> of the shutdown tail.\<close>

fun shutdownState_Done :: "state \<Rightarrow> cmd list" where
  "shutdownState_Done (shutdownState g e dn) = [Once dn []]"

fun shutdownState_End :: "state \<Rightarrow> chan" where
  "shutdownState_End (shutdownState g e dn) = e"

text \<open>
  One step of a goroutine with the made channels \<open>F\<close> closed: it blocks, panics, or goes on
  with a new list of commands, the channels then closed and the goroutines it started. Go
  visits the keys of a map in an order of its own choice: \<open>k\<close> chooses the key the loop
  visits. (A loop that waits at a key whose channel is open goes on when that channel is
  closed; here it may also visit another key first, which reaches the same states.)
\<close>

datatype step_result = Blocked | Panics panic | Steps "cmd list" "nat set" "cmd list list"

fun step :: "nat \<Rightarrow> nat set \<Rightarrow> cmd list \<Rightarrow> step_result" where
  "step k F [] = Blocked"
| "step k F (Recv c # p) = (if is_closed F c then Steps p F [] else Blocked)"
| "step k F (Close c # p) =
     (case c of
        closedchan \<Rightarrow> Panics close_of_closed_channel
      | Chan n \<Rightarrow> if n \<in> F then Panics close_of_closed_channel else Steps p (insert n F) [])"
| "step k F (Once c body # p) =
     (case c of
        closedchan \<Rightarrow> Steps p F []
      | Chan n \<Rightarrow> if n \<in> F then Steps p F [] else Steps (body @ p) (insert n F) [])"
| "step k F (Go q # p) = Steps p F [q]"
| "step k F (ForRange keys cs # p) =
     (if keys = [] then Steps p F []
      else let i = keys ! (k mod length keys) in
        if length cs \<le> i then Panics index_out_of_range
        else if is_closed F (cs ! i) then Steps (ForRange (remove1 i keys) cs # p) F []
        else Blocked)"

section \<open>The program's state: channels and goroutines\<close>

record world =
  closed_chans :: "nat set"
  made :: nat
  goroutines :: "cmd list list"
  panicked :: "panic option"

text \<open>The package's \<^verbatim>\<open>init\<close> has closed \<open>closedchan\<close>; nothing else exists yet.\<close>

definition init :: world where
  "init = \<lparr>closed_chans = {}, made = 0, goroutines = [], panicked = None\<rparr>"

text \<open>\<^verbatim>\<open>make(chan struct{})\<close>.\<close>

definition make_chan :: "world \<Rightarrow> chan \<times> world" where
  "make_chan w = (Chan (made w), w\<lparr>made := Suc (made w)\<rparr>)"

text \<open>A \<^verbatim>\<open>go\<close> statement of the caller.\<close>

definition go :: "cmd list \<Rightarrow> world \<Rightarrow> world" where
  "go p w = w\<lparr>goroutines := goroutines w @ [p]\<rparr>"

text \<open>
  The scheduler lets goroutine \<open>i\<close> take a step (with choice \<open>k\<close>). A panic ends the program:
  no goroutine steps after it.
\<close>

definition sched :: "nat \<times> nat \<Rightarrow> world \<Rightarrow> world" where
  "sched ev w =
     (if panicked w = None \<and> fst ev < length (goroutines w)
      then case step (snd ev) (closed_chans w) (goroutines w ! fst ev) of
        Blocked \<Rightarrow> w
      | Panics p \<Rightarrow> w\<lparr>panicked := Some p\<rparr>
      | Steps q F started \<Rightarrow>
          w\<lparr>closed_chans := F, goroutines := (goroutines w)[fst ev := q] @ started\<rparr>
      else w)"

definition run :: "(nat \<times> nat) list \<Rightarrow> world \<Rightarrow> world" where
  "run evs w = fold sched evs w"

section \<open>Constructors\<close>

text \<open>\<^verbatim>\<open>func addToCloseStream(done, c)\<close>: \<^verbatim>\<open>go func() { <-done; c.close() }()\<close>.\<close>

definition addToCloseStream :: "chan \<Rightarrow> state \<Rightarrow> world \<Rightarrow> world" where
  "addToCloseStream dn c w = go (Recv dn # close c) w"

text \<open>
  The loop of \<^verbatim>\<open>merge\<close> over \<^verbatim>\<open>states\<close>, from index \<open>i\<close> on: \<open>ss\<close> and \<open>tc\<close> are the slice
  and the keys of \<^verbatim>\<open>toClose\<close> built so far. A nil state is skipped; a state whose
  \<^verbatim>\<open>finishSig()\<close> is open gets its index \<open>i\<close> in \<^verbatim>\<open>toClose\<close> and a goroutine.
\<close>

fun merge_loop ::
  "nat \<Rightarrow> state option list \<Rightarrow> chan \<Rightarrow> state list \<Rightarrow> nat list \<Rightarrow> world
    \<Rightarrow> (state list \<times> nat list) \<times> world" where
  "merge_loop i [] dn ss tc w = ((ss, tc), w)"
| "merge_loop i (None # rest) dn ss tc w = merge_loop (Suc i) rest dn ss tc w"
| "merge_loop i (Some s # rest) dn ss tc w =
     (if is_closed (closed_chans w) (finishSig s)
      then merge_loop (Suc i) rest dn (ss @ [s]) tc w
      else merge_loop (Suc i) rest dn (ss @ [s]) (tc @ [i]) (addToCloseStream dn s w))"

definition merge :: "state option list \<Rightarrow> world \<Rightarrow> state group \<times> world" where
  "merge states w =
     (if length states = 0 then (G [] [] closedchan closedchan, w)
      else
        let (dn, w1) = make_chan w;
            (fin, w2) = make_chan w1;
            ((ss, tc), w3) = merge_loop 0 states dn [] [] w2
        in (G ss tc dn fin, w3))"

definition Merge :: "state option list \<Rightarrow> world \<Rightarrow> state \<times> world" where
  "Merge states w = (let (g, w1) = merge states w in (groupState g, w1))"

definition Empty :: state where
  "Empty = emptyState"

definition withShutdown :: "state option list \<Rightarrow> world \<Rightarrow> state \<times> world" where
  "withShutdown children w =
     (let (g, w1) = merge children w;
          (dn, w2) = make_chan w1;
          (e, w3) = make_chan w2
      in (shutdownState g e dn, w3))"

definition withWait :: "state option list \<Rightarrow> world \<Rightarrow> state \<times> world" where
  "withWait children w = (let (g, w1) = merge children w in (waitState g 0, w1))"

definition withError :: "error option \<Rightarrow> state option list \<Rightarrow> world \<Rightarrow> state \<times> world" where
  "withError err children w = (let (g, w1) = merge children w in (errState g err, w1))"

definition withErrorGroup :: "state option list \<Rightarrow> world \<Rightarrow> state \<times> world" where
  "withErrorGroup children w = (let (g, w1) = merge children w in (errGroupState g None, w1))"

definition withValue ::
  "any \<Rightarrow> any \<Rightarrow> state option list \<Rightarrow> world \<Rightarrow> panic + state \<times> world" where
  "withValue key val children w =
     (case key of
        None \<Rightarrow> Inl nil_state_value_key
      | Some (t, x) \<Rightarrow>
          if \<not> Comparable t then Inl state_value_key_is_not_comparable
          else let (g, w1) = merge children w in Inr (valueState g key val, w1))"

definition withReadiness :: "state option list \<Rightarrow> world \<Rightarrow> state \<times> world" where
  "withReadiness children w =
     (let (g, w1) = merge children w;
          (r, w2) = make_chan w1
      in (readinessState g r, w2))"

definition withDependency :: "state \<Rightarrow> state option list \<Rightarrow> world \<Rightarrow> state \<times> world" where
  "withDependency parent children w =
     (let (g, w1) = merge children w;
          (fin, w2) = make_chan w1
      in (dependState g parent fin, w2))"

definition withAnnotation :: "string \<Rightarrow> state option list \<Rightarrow> world \<Rightarrow> state \<times> world" where
  "withAnnotation message children w =
     (let (g, w1) = merge children w in (annotationState g message, w1))"

text \<open>\<^verbatim>\<open>DependsOn\<close> is, for every implementation, \<^verbatim>\<open>withDependency(s, children...)\<close>.\<close>

definition DependsOn :: "state \<Rightarrow> state option list \<Rightarrow> world \<Rightarrow> state \<times> world" where
  "DependsOn s children w = withDependency s children w"

section \<open>Notions of the specification\<close>


text \<open>Calls in sequence: a panic ends the sequence.\<close>

definition and_then :: "panic + 'a \<Rightarrow> ('a \<Rightarrow> panic + 'b) \<Rightarrow> panic + 'b" where
  "and_then r f = (case r of Inl p \<Rightarrow> Inl p | Inr x \<Rightarrow> f x)"

text \<open>
  A call that does nothing: \<open>inert F p\<close> says that the goroutine \<open>p\<close>, started when the
  channels \<open>F\<close> are closed, whatever channels other goroutines close meanwhile, is never
  blocked, never panics and closes no channel at any of its steps, that the goroutines it
  starts are inert as well, and that it comes to its end.
\<close>

inductive inert :: "nat set \<Rightarrow> cmd list \<Rightarrow> bool" where
  inert_Nil: "inert F []"
| inert_Cons:
    "(\<And>F' k. F \<subseteq> F' \<Longrightarrow>
        \<exists>p' started. step k F' (c # p) = Steps p' F' started \<and> inert F' p' \<and> list_all (inert F') started)
     \<Longrightarrow> inert F (c # p)"

section \<open>Programs that use the package\<close>

text \<open>
  What a goroutine of the caller does with the states \<open>T\<close> it has made: it receives from
  channels (such as \<^verbatim>\<open>End()\<close> of a tail), calls \<^verbatim>\<open>Done()\<close> of a shutdown tail, calls
  \<^verbatim>\<open>close()\<close> of a state (as \<^verbatim>\<open>Shutdown\<close> does in a goroutine of its own) and starts
  goroutines that do the same.
\<close>

inductive user :: "state set \<Rightarrow> cmd list \<Rightarrow> bool" where
  user_Nil: "user T []"
| user_Recv: "user T q \<Longrightarrow> user T (Recv c # q)"
| user_Done: "shutdownState g e dn \<in> T \<Longrightarrow> user T q \<Longrightarrow> user T (shutdownState_Done (shutdownState g e dn) @ q)"
| user_close: "t \<in> T \<Longrightarrow> user T q \<Longrightarrow> user T (close t @ q)"
| user_Go: "user T p \<Longrightarrow> user T q \<Longrightarrow> user T (Go p # q)"

text \<open>
  A step of a program that uses the package, from the state \<open>w\<close> and the states \<open>T\<close> it has
  made so far: a call of a constructor on states made before, a call of the error or the
  wait tail, the start of a goroutine, or a step of a goroutine under the scheduler.
\<close>

inductive api :: "world \<times> state set \<Rightarrow> world \<times> state set \<Rightarrow> bool" where
  api_Empty: "api (w, T) (w, insert Empty T)"
| api_Merge:
    "\<forall>c. Some c \<in> set xs \<longrightarrow> c \<in> T \<Longrightarrow>
     api (w, T) (snd (Merge xs w), insert (fst (Merge xs w)) T)"
| api_withShutdown:
    "\<forall>c. Some c \<in> set xs \<longrightarrow> c \<in> T \<Longrightarrow>
     api (w, T) (snd (withShutdown xs w), insert (fst (withShutdown xs w)) T)"
| api_withWait:
    "\<forall>c. Some c \<in> set xs \<longrightarrow> c \<in> T \<Longrightarrow>
     api (w, T) (snd (withWait xs w), insert (fst (withWait xs w)) T)"
| api_withError:
    "\<forall>c. Some c \<in> set xs \<longrightarrow> c \<in> T \<Longrightarrow>
     api (w, T) (snd (withError err xs w), insert (fst (withError err xs w)) T)"
| api_withErrorGroup:
    "\<forall>c. Some c \<in> set xs \<longrightarrow> c \<in> T \<Longrightarrow>
     api (w, T) (snd (withErrorGroup xs w), insert (fst (withErrorGroup xs w)) T)"
| api_withValue:
    "\<forall>c. Some c \<in> set xs \<longrightarrow> c \<in> T \<Longrightarrow> withValue key val xs w = Inr (t, w') \<Longrightarrow>
     api (w, T) (w', insert t T)"
| api_withReadiness:
    "\<forall>c. Some c \<in> set xs \<longrightarrow> c \<in> T \<Longrightarrow>
     api (w, T) (snd (withReadiness xs w), insert (fst (withReadiness xs w)) T)"
| api_DependsOn:
    "parent \<in> T \<Longrightarrow> \<forall>c. Some c \<in> set xs \<longrightarrow> c \<in> T \<Longrightarrow>
     api (w, T) (snd (DependsOn parent xs w), insert (fst (DependsOn parent xs w)) T)"
| api_withAnnotation:
    "\<forall>c. Some c \<in> set xs \<longrightarrow> c \<in> T \<Longrightarrow>
     api (w, T) (snd (withAnnotation a xs w), insert (fst (withAnnotation a xs w)) T)"
| api_Error:
    "errGroupState g e \<in> T \<Longrightarrow>
     api (w, T) (w, insert (errGroupState_Error (errGroupState g e) err) T)"
| api_Add:
    "waitState g n \<in> T \<Longrightarrow> waitState_Add (waitState g n) i = Inr t \<Longrightarrow>
     api (w, T) (w, insert t T)"
| api_go: "user T q \<Longrightarrow> api (w, T) (go q w, T)"
| api_sched: "api (w, T) (sched ev w, T)"

text \<open>\<open>built w T\<close>: the program has come from \<open>init\<close> to \<open>w\<close> and has made the states \<open>T\<close>.\<close>

definition built :: "world \<Rightarrow> state set \<Rightarrow> bool" where
  "built w T \<longleftrightarrow> api\<^sup>*\<^sup>* (init, {}) (w, T)"

section \<open>The invariant of channels and goroutines\<close>

text \<open>The channels that are closed once a goroutine has run the commands \<open>p\<close> to their end.\<close>

fun post :: "cmd list \<Rightarrow> chan set" where
  "post [] = {}"
| "post (Recv c # p) = insert c (post p)"
| "post (Close c # p) = insert c (post p)"
| "post (Once c body # p) = insert c (post p)"
| "post (Go q # p) = post p"
| "post (ForRange keys cs # p) = post p"

text \<open>
  The invariant is stated for a set \<open>P\<close> of pairs: the numbers of the \<^verbatim>\<open>done\<close> and
  \<^verbatim>\<open>finished\<close> channels of the groups made so far, and the number \<open>n\<close> of channels made.
  A command is in order when it closes no channel outside \<open>Once\<close>, and each \<open>Once\<close> either
  only closes a channel that is no group's \<^verbatim>\<open>finished\<close>, or is the one of \<^verbatim>\<open>group.close\<close> for
  a pair of \<open>P\<close>.
\<close>

fun ok_cmd :: "nat \<Rightarrow> (nat \<times> nat) set \<Rightarrow> cmd \<Rightarrow> bool" where
  "ok_cmd n P (Recv c) = True"
| "ok_cmd n P (Close c) = False"
| "ok_cmd n P (ForRange keys cs) = False"
| "ok_cmd n P (Go q) = list_all (ok_cmd n P) q"
| "ok_cmd n P (Once c body) =
     (case c of
        closedchan \<Rightarrow> True
      | Chan d \<Rightarrow>
          (body = [] \<and> d < n \<and> d \<notin> Range P) \<or>
          (\<exists>keys cs f. body = [ForRange keys cs, Close (Chan f)] \<and> (d, f) \<in> P))"

text \<open>
  A goroutine that has closed \<^verbatim>\<open>done\<close> in \<^verbatim>\<open>group.close\<close> and not yet \<^verbatim>\<open>finished\<close> is
  committed to closing that \<^verbatim>\<open>finished\<close> channel; \<open>uncommitted\<close> is what it does after.
\<close>

fun committed :: "cmd list \<Rightarrow> nat option" where
  "committed (ForRange keys cs # Close (Chan f) # p) = Some f"
| "committed (Close (Chan f) # p) = Some f"
| "committed p = None"

fun uncommitted :: "cmd list \<Rightarrow> cmd list" where
  "uncommitted (ForRange keys cs # Close c # p) = p"
| "uncommitted (Close c # p) = p"
| "uncommitted p = p"

definition guarded :: "nat \<Rightarrow> (nat \<times> nat) set \<Rightarrow> cmd list \<Rightarrow> bool" where
  "guarded n P q = list_all (ok_cmd n P) q"

definition shape :: "nat \<Rightarrow> (nat \<times> nat) set \<Rightarrow> cmd list \<Rightarrow> bool" where
  "shape n P q =
     (case committed q of
        None \<Rightarrow> guarded n P q
      | Some f \<Rightarrow> f \<in> Range P \<and> guarded n P (uncommitted q))"

text \<open>
  \<open>sound P w\<close>: the pairs are channels made, no \<^verbatim>\<open>finished\<close> is closed before its \<^verbatim>\<open>done\<close>,
  a \<^verbatim>\<open>finished\<close> has one \<^verbatim>\<open>done\<close> and is no \<^verbatim>\<open>done\<close> itself; only made channels are closed;
  every goroutine is in order; no two goroutines are committed to the same channel, and a
  channel a goroutine is committed to is open while its \<^verbatim>\<open>done\<close> is closed.
\<close>

definition sound :: "(nat \<times> nat) set \<Rightarrow> world \<Rightarrow> bool" where
  "sound P w \<longleftrightarrow>
     (\<forall>(d, f) \<in> P. d < made w \<and> f < made w \<and> (f \<in> closed_chans w \<longrightarrow> d \<in> closed_chans w))
   \<and> (\<forall>d d' f. (d, f) \<in> P \<and> (d', f) \<in> P \<longrightarrow> d = d')
   \<and> Domain P \<inter> Range P = {}
   \<and> closed_chans w \<subseteq> {..<made w}
   \<and> (\<forall>q \<in> set (goroutines w). shape (made w) P q)
   \<and> (\<forall>i < length (goroutines w). \<forall>j < length (goroutines w). \<forall>f.
        committed (goroutines w ! i) = Some f \<and> committed (goroutines w ! j) = Some f \<longrightarrow> i = j)
   \<and> (\<forall>q \<in> set (goroutines w). \<forall>f. committed q = Some f \<longrightarrow>
        f \<notin> closed_chans w \<and> (\<forall>d. (d, f) \<in> P \<longrightarrow> d \<in> closed_chans w))"

text \<open>More channels and pairs, the new \<^verbatim>\<open>finished\<close> channels being new channels.\<close>

definition extends :: "nat \<Rightarrow> (nat \<times> nat) set \<Rightarrow> nat \<Rightarrow> (nat \<times> nat) set \<Rightarrow> bool" where
  "extends n P n' P' \<longleftrightarrow> n \<le> n' \<and> P \<subseteq> P' \<and> (\<forall>d f. (d, f) \<in> P' \<and> (d, f) \<notin> P \<longrightarrow> n \<le> f)"

text \<open>A state whose \<^verbatim>\<open>close()\<close> and, for a shutdown state, \<^verbatim>\<open>Done()\<close> are in order.\<close>

definition known :: "nat \<Rightarrow> (nat \<times> nat) set \<Rightarrow> state \<Rightarrow> bool" where
  "known n P t \<longleftrightarrow>
     guarded n P (close t) \<and> (\<forall>g e dn. t = shutdownState g e dn \<longrightarrow> ok_cmd n P (Once dn []))"

text \<open>
  A step that only adds goroutines: it closes no channel and changes none of the
  goroutines there are.
\<close>

definition frame :: "world \<Rightarrow> world \<Rightarrow> bool" where
  "frame w w' \<longleftrightarrow> (\<exists>ws. goroutines w' = goroutines w @ ws) \<and> closed_chans w' = closed_chans w
     \<and> panicked w' = panicked w"

text \<open>
  What every step of a program keeps: the invariant for some pairs, with the states made
  and the commands \<open>q\<close> in order, and no channel closed twice.
\<close>

definition safe :: "world \<Rightarrow> state set \<Rightarrow> cmd list \<Rightarrow> bool" where
  "safe w T q \<longleftrightarrow>
     (\<exists>P. sound P w \<and> (\<forall>t \<in> T. known (made w) P t) \<and> guarded (made w) P q)
     \<and> panicked w \<noteq> Some close_of_closed_channel"

section \<open>Lemmas\<close>

subsection \<open>The first non-nil result\<close>

lemma first_non_nil_None: "first_non_nil rs = None \<longleftrightarrow> (\<forall>r\<in>set rs. r = None)"
  by (induction rs rule: first_non_nil.induct) auto

lemma first_non_nil_Some:
  "first_non_nil rs = Some e \<longleftrightarrow> (\<exists>i<length rs. rs ! i = Some e \<and> (\<forall>j<i. rs ! j = None))"
proof (induction rs rule: first_non_nil.induct)
  case 1
  then show ?case by simp
next
  case (2 rs)
  show ?case
  proof
    assume "first_non_nil (None # rs) = Some e"
    then obtain i where i: "i < length rs" "rs ! i = Some e" "\<forall>j<i. rs ! j = None"
      using 2 by auto
    have "\<forall>j<Suc i. (None # rs) ! j = None"
      using i(3) by (auto simp: nth_Cons split: nat.splits)
    then show "\<exists>i<length (None # rs). (None # rs) ! i = Some e \<and> (\<forall>j<i. (None # rs) ! j = None)"
      using i by (intro exI[of _ "Suc i"]) auto
  next
    assume "\<exists>i<length (None # rs). (None # rs) ! i = Some e \<and> (\<forall>j<i. (None # rs) ! j = None)"
    then obtain i where i: "i < length (None # rs)" "(None # rs) ! i = Some e"
      "\<forall>j<i. (None # rs) ! j = None" by blast
    then obtain i' where i': "i = Suc i'" by (cases i) auto
    have "\<forall>j<i'. rs ! j = None"
    proof (intro allI impI)
      fix j assume "j < i'"
      then have "(None # rs) ! Suc j = None" using i(3) i' by auto
      then show "rs ! j = None" by simp
    qed
    then have "first_non_nil rs = Some e" using 2 i i' by auto
    then show "first_non_nil (None # rs) = Some e" by simp
  qed
next
  case (3 r rs)
  show ?case
  proof
    assume "first_non_nil (Some r # rs) = Some e"
    then show "\<exists>i<length (Some r # rs). (Some r # rs) ! i = Some e \<and> (\<forall>j<i. (Some r # rs) ! j = None)"
      by (intro exI[of _ 0]) auto
  next
    assume "\<exists>i<length (Some r # rs). (Some r # rs) ! i = Some e \<and> (\<forall>j<i. (Some r # rs) ! j = None)"
    then obtain i where i: "i < length (Some r # rs)" "(Some r # rs) ! i = Some e"
      "\<forall>j<i. (Some r # rs) ! j = None" by blast
    have "i = 0"
    proof (rule ccontr)
      assume "i \<noteq> 0"
      then have "(Some r # rs) ! 0 = None" using i(3) by blast
      then show False by simp
    qed
    then show "first_non_nil (Some r # rs) = Some e" using i by simp
  qed
qed




lemma first_non_nil_mem: "first_non_nil rs = Some r \<Longrightarrow> Some r \<in> set rs"
  by (induction rs rule: first_non_nil.induct) auto

subsection \<open>merge keeps the non-nil states in order\<close>

lemma merge_loop_states:
  "fst (fst (merge_loop i xs dn ss tc w)) = ss @ map the (filter (\<lambda>x. x \<noteq> None) xs)"
  by (induction i xs dn ss tc w rule: merge_loop.induct) auto

lemma merge_states: "g_states (fst (merge xs w)) = map the (filter (\<lambda>x. x \<noteq> None) xs)"
  by (cases "merge_loop 0 xs (Chan (made w)) [] [] (w\<lparr>made := Suc (Suc (made w))\<rparr>)")
     (use merge_loop_states[of 0 xs "Chan (made w)" "[]" "[]" "w\<lparr>made := Suc (Suc (made w))\<rparr>"]
      in \<open>auto simp: merge_def make_chan_def split: prod.splits\<close>)

subsection \<open>Value and the topmost assignments\<close>


subsection \<open>cause and Shutdown\<close>

lemma cause_Is_ErrTimeout: "cause F c = Some err \<Longrightarrow> Is err ErrTimeout"
proof (induction F c arbitrary: err rule: cause.induct)
  case (1 F)
  then show ?case by simp
next
  case (3 F ss tc d f e dn)
  then show ?case
    by (auto simp: ErrTimeout_def split: option.splits if_splits dest!: first_non_nil_mem)
next
  case (9 F ss tc d f parent fin)
  then show ?case
    by (auto split: option.splits dest!: first_non_nil_mem)
next
  case (10 F ss tc d f a)
  then show ?case
    by (auto split: option.splits dest!: first_non_nil_mem)
qed (auto dest!: first_non_nil_mem)

lemma Shutdown_finishSig_first:
  "is_closed F (finishSig c) \<Longrightarrow> \<not> expired \<or> pick = case_finishSig \<Longrightarrow>
   Shutdown F expired pick F' c = Returns None"
  by (cases c) (auto simp: shutdown_def)

lemma annotation_cause:
  "cause F' (annotationState g a) =
     (case cause F' (groupState g) of Some err \<Rightarrow> Some (Errorf a err) | None \<Rightarrow> None)"
  by (cases g) simp

lemma group_cause_embedded:
  "cause F' (waitState g n) = cause F' (groupState g)"
  "cause F' (errState g err) = cause F' (groupState g)"
  "cause F' (errGroupState g err) = cause F' (groupState g)"
  "cause F' (valueState g k v) = cause F' (groupState g)"
  "cause F' (readinessState g r) = cause F' (groupState g)"
  by (cases g; simp)+

lemma Shutdown_deadline_first:
  "expired \<Longrightarrow> \<not> is_closed F (finishSig c) \<or> pick = case_ctx_Done \<Longrightarrow>
   Shutdown F expired pick F' c = Returns (cause F' c)"
proof (cases c)
  case (annotationState g a)
  assume "expired" "\<not> is_closed F (finishSig c) \<or> pick = case_ctx_Done"
  then show ?thesis
    using annotationState
    by (cases "cause F' (groupState g)") (auto simp: shutdown_def annotation_cause)
qed (auto simp: shutdown_def group_cause_embedded)

subsection \<open>A step keeps a goroutine in order\<close>

lemma guarded_committed: "guarded n P q \<Longrightarrow> committed q = None"
  by (cases q rule: committed.cases) (auto simp: guarded_def)

lemma guarded_shape: "guarded n P q \<Longrightarrow> shape n P q"
  by (simp add: shape_def guarded_committed)

lemma guarded_Cons: "guarded n P (c # q) \<longleftrightarrow> ok_cmd n P c \<and> guarded n P q"
  by (simp add: guarded_def)

lemma guarded_append: "guarded n P (q @ q') \<longleftrightarrow> guarded n P q \<and> guarded n P q'"
  by (simp add: guarded_def)

lemma step_effect:
  assumes "shape n P q" and "step k F q = Steps q' F' started"
  shows "shape n P q' \<and> list_all (guarded n P) started \<and>
     ((F' = F \<and> committed q' = committed q)
      \<or> (\<exists>d. d \<notin> F \<and> F' = insert d F \<and> d < n \<and> d \<notin> Range P \<and>
              committed q = None \<and> committed q' = None)
      \<or> (\<exists>d f. d \<notin> F \<and> F' = insert d F \<and> (d, f) \<in> P \<and>
              committed q = None \<and> committed q' = Some f)
      \<or> (\<exists>f. committed q = Some f \<and> f \<notin> F \<and> F' = insert f F \<and> committed q' = None))"
proof (cases q)
  case Nil
  then show ?thesis using assms by simp
next
  case (Cons c p)
  show ?thesis
  proof (cases c)
    case (Recv ch)
    then have g: "guarded n P p"
      using assms(1) Cons by (simp add: shape_def guarded_Cons)
    then show ?thesis
      using assms(2) Cons Recv by (auto simp: guarded_shape guarded_committed split: if_splits)
  next
    case (Close ch)
    show ?thesis
    proof (cases ch)
      case closedchan
      then show ?thesis using assms Cons Close by simp
    next
      case (Chan f)
      then have g: "guarded n P p" and f: "f \<in> Range P"
        using assms(1) Cons Close by (simp_all add: shape_def)
      then show ?thesis
        using assms(2) Cons Close Chan
        by (auto simp: guarded_shape guarded_committed split: if_splits)
    qed
  next
    case (Once ch body)
    then have g: "guarded n P p" and o: "ok_cmd n P (Once ch body)"
      using assms(1) Cons by (simp_all add: shape_def guarded_Cons)
    show ?thesis
    proof (cases ch)
      case closedchan
      then show ?thesis
        using assms(2) Cons Once g by (auto simp: guarded_shape guarded_committed)
    next
      case (Chan d)
      show ?thesis
      proof (cases "d \<in> F")
        case True
        then show ?thesis
          using assms(2) Cons Once Chan g by (auto simp: guarded_shape guarded_committed)
      next
        case False
        then have q': "q' = body @ p" and F': "F' = insert d F" and st: "started = []"
          using assms(2) Cons Once Chan by auto
        from o Chan consider (plain) "body = []" "d < n" "d \<notin> Range P"
          | (commit) keys cs f where "body = [ForRange keys cs, Close (Chan f)]" "(d, f) \<in> P"
          using Once by auto
        then show ?thesis
        proof cases
          case plain
          then show ?thesis
            using q' F' st g False Cons Once by (auto simp: guarded_shape guarded_committed)
        next
          case commit
          have "f \<in> Range P" using commit(2) by blast
          then have "shape n P q'"
            using q' commit g by (simp add: shape_def)
          then show ?thesis
            using q' F' st False Cons Once commit by auto
        qed
      qed
    qed
  next
    case (Go r)
    then have g: "guarded n P p" and r: "guarded n P r"
      using assms(1) Cons by (simp_all add: shape_def guarded_Cons guarded_def)
    then show ?thesis
      using assms(2) Cons Go by (auto simp: guarded_shape guarded_committed)
  next
    case (ForRange keys cs)
    have "committed q \<noteq> None"
    proof
      assume "committed q = None"
      then have "guarded n P q" using assms(1) by (simp add: shape_def)
      then show False using Cons ForRange by (simp add: guarded_Cons)
    qed
    then obtain f r where p: "p = Close (Chan f) # r"
      using Cons ForRange by (cases p rule: committed.cases) auto
    then have g: "guarded n P r" and f: "f \<in> Range P"
      using assms(1) Cons ForRange by (simp_all add: shape_def)
    then show ?thesis
      using assms(2) Cons ForRange p
      by (auto simp: shape_def Let_def split: if_splits)
  qed
qed

subsection \<open>The scheduler keeps the invariant\<close>

lemma in_set_update_append:
  assumes "q \<in> set (xs[i := y] @ zs)"
  shows "q = y \<or> q \<in> set zs \<or> (\<exists>b < length xs. b \<noteq> i \<and> q = xs ! b)"
proof -
  from assms consider "q \<in> set (xs[i := y])" | "q \<in> set zs" by auto
  then show ?thesis
  proof cases
    case 1
    then obtain b where "b < length xs" "q = xs[i := y] ! b"
      by (auto simp: in_set_conv_nth)
    then show ?thesis by (cases "b = i") auto
  next
    case 2
    then show ?thesis by simp
  qed
qed

lemma nth_update_append:
  "(xs[i := y] @ zs) ! b =
     (if b < length xs then (if b = i then y else xs ! b) else zs ! (b - length xs))"
  by (simp add: nth_append)

lemma sound_Steps:
  assumes s: "sound P w"
    and i: "i < length (goroutines w)"
    and st: "step k (closed_chans w) (goroutines w ! i) = Steps q' F' started"
  shows "sound P (w\<lparr>closed_chans := F', goroutines := (goroutines w)[i := q'] @ started\<rparr>)"
proof -
  define pool where "pool = goroutines w"
  define F where "F = closed_chans w"
  define n where "n = made w"
  define q where "q = pool ! i"
  have pairs: "\<And>d f. (d, f) \<in> P \<Longrightarrow> d < n \<and> f < n \<and> (f \<in> F \<longrightarrow> d \<in> F)"
    and func: "\<And>d d' f. (d, f) \<in> P \<Longrightarrow> (d', f) \<in> P \<Longrightarrow> d = d'"
    and disj: "Domain P \<inter> Range P = {}"
    and bound: "F \<subseteq> {..<n}"
    and shapes: "\<And>r. r \<in> set pool \<Longrightarrow> shape n P r"
    and uniq: "\<And>a b f. a < length pool \<Longrightarrow> b < length pool \<Longrightarrow>
        committed (pool ! a) = Some f \<Longrightarrow> committed (pool ! b) = Some f \<Longrightarrow> a = b"
    and comm: "\<And>r f. r \<in> set pool \<Longrightarrow> committed r = Some f \<Longrightarrow>
        f \<notin> F \<and> (\<forall>d. (d, f) \<in> P \<longrightarrow> d \<in> F)"
    using s unfolding sound_def pool_def F_def n_def by (blast, blast, blast, blast, blast, blast, blast)
  have qin: "q \<in> set pool" using i by (simp add: q_def pool_def)
  have il: "i < length pool" using i by (simp add: pool_def)
  have st': "step k F q = Steps q' F' started" using st by (simp add: q_def pool_def F_def)
  from step_effect[OF shapes[OF qin] st']
  have sh': "shape n P q'" and gs: "list_all (guarded n P) started"
    and eff: "(F' = F \<and> committed q' = committed q)
      \<or> (\<exists>d. d \<notin> F \<and> F' = insert d F \<and> d < n \<and> d \<notin> Range P \<and>
              committed q = None \<and> committed q' = None)
      \<or> (\<exists>d f. d \<notin> F \<and> F' = insert d F \<and> (d, f) \<in> P \<and>
              committed q = None \<and> committed q' = Some f)
      \<or> (\<exists>f. committed q = Some f \<and> f \<notin> F \<and> F' = insert f F \<and> committed q' = None)"
    by blast+
  have cq: "\<And>f. committed q = Some f \<Longrightarrow> f \<in> Range P"
    using shapes[OF qin] by (auto simp: shape_def)
  have started_uncommitted: "\<And>r. r \<in> set started \<Longrightarrow> committed r = None"
    using gs by (auto simp: list_all_iff guarded_committed)
  have mono: "F \<subseteq> F'" using eff by auto
  have pairs': "\<And>d f. (d, f) \<in> P \<Longrightarrow> d < n \<and> f < n \<and> (f \<in> F' \<longrightarrow> d \<in> F')"
  proof -
    fix d f assume df: "(d, f) \<in> P"
    have "f \<in> F' \<Longrightarrow> d \<in> F'"
    proof -
      assume fF: "f \<in> F'"
      from eff consider (same) "F' = F"
        | (plain) x where "F' = insert x F" "x \<notin> Range P"
        | (commit) x y where "F' = insert x F" "(x, y) \<in> P"
        | (release) y where "committed q = Some y" "F' = insert y F"
        by blast
      then show "d \<in> F'"
      proof cases
        case same
        then show ?thesis using pairs[OF df] fF by simp
      next
        case plain
        then have "f \<noteq> x" using df by blast
        then show ?thesis using pairs[OF df] fF plain by auto
      next
        case commit
        then have "f \<noteq> x" using df disj by blast
        then show ?thesis using pairs[OF df] fF commit by auto
      next
        case release
        show ?thesis
        proof (cases "f = y")
          case True
          then show ?thesis using comm[OF qin release(1)] df release(2) by auto
        next
          case False
          then show ?thesis using pairs[OF df] fF release by auto
        qed
      qed
    qed
    then show "d < n \<and> f < n \<and> (f \<in> F' \<longrightarrow> d \<in> F')"
      using pairs[OF df] by blast
  qed
  have bound': "F' \<subseteq> {..<n}"
    using eff bound pairs cq by (auto 0 3)
  let ?pool' = "pool[i := q'] @ started"
  have shapes': "\<And>r. r \<in> set ?pool' \<Longrightarrow> shape n P r"
  proof -
    fix r assume "r \<in> set ?pool'"
    then consider "r = q'" | "r \<in> set started" | "r \<in> set pool"
      using in_set_update_append[of r pool i q' started] by auto
    then show "shape n P r"
      using sh' gs shapes by cases (auto simp: list_all_iff guarded_shape)
  qed
  have other_notin: "f \<notin> F'" "\<forall>d. (d, f) \<in> P \<longrightarrow> d \<in> F'"
    if b: "b < length pool" "b \<noteq> i" and c: "committed (pool ! b) = Some f" for b f
  proof -
    have bin: "pool ! b \<in> set pool" using b by simp
    have old: "f \<notin> F" "\<forall>d. (d, f) \<in> P \<longrightarrow> d \<in> F" using comm[OF bin c] by auto
    have fr: "f \<in> Range P" using shapes[OF bin] c by (auto simp: shape_def)
    show "\<forall>d. (d, f) \<in> P \<longrightarrow> d \<in> F'" using old(2) mono by blast
    from eff consider (same) "F' = F"
      | (plain) x where "F' = insert x F" "x \<notin> Range P"
      | (commit) x y where "F' = insert x F" "(x, y) \<in> P"
      | (release) y where "committed q = Some y" "F' = insert y F"
      by blast
    then show "f \<notin> F'"
    proof cases
      case same
      then show ?thesis using old by simp
    next
      case plain
      then show ?thesis using old fr by auto
    next
      case commit
      then show ?thesis using old fr disj by auto
    next
      case release
      have "f \<noteq> y"
      proof
        assume "f = y"
        then have "committed (pool ! i) = Some f"
          using release(1) by (simp add: q_def)
        then have "b = i" using uniq[OF b(1) il c] by simp
        then show False using b(2) by simp
      qed
      then show ?thesis using old release by auto
    qed
  qed
  have own: "f \<notin> F'" "\<forall>d. (d, f) \<in> P \<longrightarrow> d \<in> F'" if c: "committed q' = Some f" for f
  proof -
    from eff c consider (same) "F' = F" "committed q = Some f"
      | (commit) x where "x \<notin> F" "F' = insert x F" "(x, f) \<in> P"
      by auto
    then have "f \<notin> F' \<and> (\<forall>d. (d, f) \<in> P \<longrightarrow> d \<in> F')"
    proof cases
      case same
      then show ?thesis using comm[OF qin same(2)] by simp
    next
      case commit
      have "f \<noteq> x" using commit(3) disj by blast
      moreover have "f \<notin> F" using pairs[OF commit(3)] commit(1) by blast
      moreover have "\<And>d. (d, f) \<in> P \<Longrightarrow> d = x" using func commit(3) by blast
      ultimately show ?thesis using commit(2) by auto
    qed
    then show "f \<notin> F'" "\<forall>d. (d, f) \<in> P \<longrightarrow> d \<in> F'" by blast+
  qed
  have comm': "\<And>r f. r \<in> set ?pool' \<Longrightarrow> committed r = Some f \<Longrightarrow>
        f \<notin> F' \<and> (\<forall>d. (d, f) \<in> P \<longrightarrow> d \<in> F')"
  proof -
    fix r f assume r: "r \<in> set ?pool'" and c: "committed r = Some f"
    from r consider "r = q'" | "r \<in> set started" | b where "b < length pool" "b \<noteq> i" "r = pool ! b"
      using in_set_update_append[of r pool i q' started] by auto
    then show "f \<notin> F' \<and> (\<forall>d. (d, f) \<in> P \<longrightarrow> d \<in> F')"
    proof cases
      case 1
      then show ?thesis using own c by blast
    next
      case 2
      then show ?thesis using started_uncommitted c by simp
    next
      case 3
      then show ?thesis using other_notin[of b f] c by blast
    qed
  qed
  have nth': "\<And>a. a < length ?pool' \<Longrightarrow> committed (?pool' ! a) \<noteq> None \<Longrightarrow>
      a < length pool \<and> ?pool' ! a = (if a = i then q' else pool ! a)"
  proof -
    fix a assume a: "a < length ?pool'" and c: "committed (?pool' ! a) \<noteq> None"
    have "a < length pool"
    proof (rule ccontr)
      assume "\<not> a < length pool"
      then have "?pool' ! a \<in> set started"
        using a by (auto simp: nth_append)
      then have "committed (?pool' ! a) = None" by (rule started_uncommitted)
      then show False using c by simp
    qed
    then show "a < length pool \<and> ?pool' ! a = (if a = i then q' else pool ! a)"
      by (simp add: nth_append)
  qed
  have clash: False
    if b: "b < length pool" "b \<noteq> i" and cb: "committed (pool ! b) = Some f"
      and cq': "committed q' = Some f" for b f
  proof -
    have bin: "pool ! b \<in> set pool" using b by simp
    from eff cq' consider (same) "committed q = Some f"
      | (commit) x where "x \<notin> F" "(x, f) \<in> P"
      by auto
    then show False
    proof cases
      case same
      then have "committed (pool ! i) = Some f" by (simp add: q_def)
      then have "b = i" using uniq[OF b(1) il cb] by simp
      then show False using b(2) by simp
    next
      case commit
      then show False using comm[OF bin cb] by blast
    qed
  qed
  have uniq': "\<And>a b f. a < length ?pool' \<Longrightarrow> b < length ?pool' \<Longrightarrow>
        committed (?pool' ! a) = Some f \<Longrightarrow> committed (?pool' ! b) = Some f \<Longrightarrow> a = b"
  proof -
    fix a b f assume a: "a < length ?pool'" and b: "b < length ?pool'"
      and ca: "committed (?pool' ! a) = Some f"
      and cb: "committed (?pool' ! b) = Some f"
    have na: "a < length pool" "?pool' ! a = (if a = i then q' else pool ! a)"
      using nth'[OF a] ca by auto
    have nb: "b < length pool" "?pool' ! b = (if b = i then q' else pool ! b)"
      using nth'[OF b] cb by auto
    show "a = b"
    proof (cases "a = i")
      case True
      show ?thesis
      proof (cases "b = i")
        case True
        then show ?thesis using \<open>a = i\<close> by simp
      next
        case False
        then show ?thesis using clash[of b f] na nb ca cb True by auto
      qed
    next
      case False
      show ?thesis
      proof (cases "b = i")
        case True
        then show ?thesis using clash[of a f] na nb ca cb False by auto
      next
        case bi: False
        then show ?thesis using uniq[OF na(1) nb(1), of f] na nb ca cb False by auto
      qed
    qed
  qed
  show ?thesis
    unfolding sound_def
    using pairs' func disj bound' shapes' uniq' comm'
    by (simp add: pool_def[symmetric] F_def[symmetric] n_def[symmetric]) blast
qed

lemma sound_panicked: "sound P (w\<lparr>panicked := x\<rparr>) = sound P w"
  by (simp add: sound_def)

lemma sound_sched: "sound P w \<Longrightarrow> sound P (sched ev w)"
  by (auto simp: sched_def sound_panicked sound_Steps split: step_result.splits)

lemma step_no_double_close:
  assumes "shape n P q" and "\<And>f. committed q = Some f \<Longrightarrow> f \<notin> F"
  shows "step k F q \<noteq> Panics close_of_closed_channel"
proof (cases q)
  case Nil
  then show ?thesis by simp
next
  case (Cons c p)
  show ?thesis
  proof (cases c)
    case (Close ch)
    show ?thesis
    proof (cases ch)
      case closedchan
      then show ?thesis using assms(1) Cons Close by (simp add: shape_def guarded_Cons)
    next
      case (Chan f)
      then show ?thesis using assms(2)[of f] Cons Close by simp
    qed
  qed (use Cons in \<open>auto simp: Let_def split: chan.splits\<close>)
qed

lemma sched_no_double_close:
  assumes "sound P w" and "panicked w \<noteq> Some close_of_closed_channel"
  shows "panicked (sched ev w) \<noteq> Some close_of_closed_channel"
proof (cases "panicked w = None \<and> fst ev < length (goroutines w)")
  case True
  then have qin: "goroutines w ! fst ev \<in> set (goroutines w)" by simp
  have sh: "shape (made w) P (goroutines w ! fst ev)"
    using assms(1) qin unfolding sound_def by blast
  have "\<And>f. committed (goroutines w ! fst ev) = Some f \<Longrightarrow> f \<notin> closed_chans w"
    using assms(1) qin unfolding sound_def by blast
  from step_no_double_close[OF sh this]
  show ?thesis
    using True by (auto simp: sched_def split: step_result.splits)
next
  case False
  then show ?thesis using assms(2) by (auto simp: sched_def)
qed

subsection \<open>What a goroutine has passed is closed\<close>

lemma is_closed_mono: "is_closed F c \<Longrightarrow> F \<subseteq> F' \<Longrightarrow> is_closed F' c"
  by (cases c) auto

lemma post_append: "post (p @ p') = post p \<union> post p'"
  by (induction p rule: post.induct) auto

lemma step_mono: "step k F q = Steps q' F' started \<Longrightarrow> F \<subseteq> F'"
  by (cases "(k, F, q)" rule: step.cases) (auto simp: Let_def split: if_splits chan.splits)

lemma step_post:
  "step k F q = Steps q' F' started \<Longrightarrow> c \<in> post q \<Longrightarrow> is_closed F' c \<or> c \<in> post q'"
  by (cases "(k, F, q)" rule: step.cases)
     (auto simp: Let_def post_append split: if_splits chan.splits)

lemma sched_closed_mono: "closed_chans w \<subseteq> closed_chans (sched ev w)"
  by (auto simp: sched_def split: step_result.splits dest: step_mono)

lemma sched_length: "length (goroutines w) \<le> length (goroutines (sched ev w))"
  by (auto simp: sched_def split: step_result.splits)

lemma sched_post:
  assumes "i < length (goroutines w)" and "c \<in> post (goroutines w ! i)"
  shows "is_closed (closed_chans (sched ev w)) c \<or> c \<in> post (goroutines (sched ev w) ! i)"
proof (cases "panicked w = None \<and> fst ev < length (goroutines w)")
  case True
  show ?thesis
  proof (cases "step (snd ev) (closed_chans w) (goroutines w ! fst ev)")
    case (Steps q' F' started)
    show ?thesis
    proof (cases "fst ev = i")
      case True
      then show ?thesis
        using step_post[OF Steps, of c] assms \<open>panicked w = None \<and> fst ev < length (goroutines w)\<close> Steps
        by (auto simp: sched_def nth_append)
    next
      case False
      then show ?thesis
        using assms True Steps by (auto simp: sched_def nth_append)
    qed
  qed (use assms True in \<open>auto simp: sched_def\<close>)
next
  case False
  then show ?thesis using assms by (auto simp: sched_def)
qed

subsection \<open>Inert goroutines\<close>

lemma inert_mono: "inert F p \<Longrightarrow> F \<subseteq> F2 \<Longrightarrow> inert F2 p"
proof (induction rule: inert.induct)
  case (inert_Nil F)
  show ?case by (rule inert.inert_Nil)
next
  case (inert_Cons F c p)
  show ?case
  proof (rule inert.inert_Cons)
    fix F' k assume "F2 \<subseteq> F'"
    then have "F \<subseteq> F'" using inert_Cons.prems by simp
    from inert_Cons.IH[OF this, of k]
    show "\<exists>p' started. step k F' (c # p) = Steps p' F' started \<and> inert F' p' \<and> list_all (inert F') started"
      by (auto simp: list_all_iff)
  qed
qed

lemma inert_Recv: "is_closed F c \<Longrightarrow> inert F p \<Longrightarrow> inert F (Recv c # p)"
  by (rule inert.inert_Cons) (auto intro: inert_mono is_closed_mono)

lemma inert_Once: "is_closed F c \<Longrightarrow> inert F p \<Longrightarrow> inert F (Once c body # p)"
  by (rule inert.inert_Cons) (cases c; auto intro: inert_mono)

lemma inert_Go: "inert F q \<Longrightarrow> inert F p \<Longrightarrow> inert F (Go q # p)"
  by (rule inert.inert_Cons) (auto intro: inert_mono)

lemma step_append:
  "step k F (c # p) = Steps p' F' started \<Longrightarrow> step k F (c # p @ r) = Steps (p' @ r) F' started"
  by (cases c) (auto simp: Let_def split: if_splits chan.splits)

lemma inert_append: "inert F p \<Longrightarrow> inert F r \<Longrightarrow> inert F (p @ r)"
proof (induction rule: inert.induct)
  case (inert_Nil F)
  then show ?case by simp
next
  case (inert_Cons F c p)
  have "inert F (c # p @ r)"
  proof (rule inert.inert_Cons)
    fix F' k assume sub: "F \<subseteq> F'"
    from inert_Cons.IH[OF sub, of k] obtain p' started where
      st: "step k F' (c # p) = Steps p' F' started"
      and ih: "inert F' r \<Longrightarrow> inert F' (p' @ r)"
      and sp: "list_all (inert F') started"
      by (auto simp: list_all_iff)
    have "inert F' r" using inert_Cons.prems sub by (rule inert_mono)
    then show "\<exists>p' started. step k F' (c # p @ r) = Steps p' F' started \<and> inert F' p' \<and> list_all (inert F') started"
      using step_append[OF st] ih sp by blast
  qed
  then show ?case by simp
qed

lemma inert_group_close: "is_closed F (g_done g) \<Longrightarrow> inert F (group_close g)"
  unfolding group_close_def by (intro inert_Once inert.inert_Nil)

lemma guarded_group_close:
  assumes "guarded n P (group_close g)" and "\<forall>d f. (d, f) \<in> P \<longrightarrow> f \<in> F \<longrightarrow> d \<in> F"
    and "is_closed F (g_finished g)"
  shows "is_closed F (g_done g)"
proof (cases "g_done g")
  case closedchan
  then show ?thesis by simp
next
  case (Chan d)
  then obtain f where "g_finished g = Chan f" "(d, f) \<in> P"
    using assms(1) by (auto simp: guarded_def group_close_def)
  then show ?thesis using assms(2) assms(3) Chan by auto
qed

lemma post_group_close: "post (group_close g) = {g_done g}"
  by (simp add: group_close_def)

lemma inert_close:
  assumes pairs: "\<forall>d f. (d, f) \<in> P \<longrightarrow> f \<in> F \<longrightarrow> d \<in> F"
  shows "guarded n P (close t) \<Longrightarrow> \<forall>c \<in> post (close t). is_closed F c \<Longrightarrow> inert F (close t)"
proof (induction t)
  case emptyState
  then show ?case by (simp add: inert.inert_Nil)
next
  case (shutdownState g e dn)
  have "guarded n P (group_close g)"
    using shutdownState.prems(1) by (simp add: guarded_def)
  moreover have "is_closed F (g_finished g)" "is_closed F e"
    using shutdownState.prems(2) by simp_all
  ultimately show ?case
    using guarded_group_close[where n = n and g = g, OF _ pairs]
    by (auto intro!: inert_Go inert_Recv inert_Once inert.inert_Nil inert_group_close)
next
  case (dependState g parent fin)
  have g: "guarded n P (close parent)"
    using dependState.prems(1) by (simp add: guarded_append guarded_Cons)
  have p: "\<forall>c \<in> post (close parent). is_closed F c"
    using dependState.prems(2) by (simp add: post_append)
  have c: "is_closed F (g_done g)" "is_closed F (g_finished g)"
    "is_closed F (finishSig parent)" "is_closed F fin"
    using dependState.prems(2) by (simp_all add: post_append post_group_close)
  show ?case
    using dependState.IH(2)[OF g p] c
    by (auto intro!: inert_append inert_group_close inert_Recv inert_Once inert.inert_Nil)
qed (auto simp: post_group_close intro: inert_group_close)

lemma committed_close: "committed (close t) = None"
  by (cases t) (auto simp: group_close_def)

subsection \<open>The constructors keep the invariant\<close>

lemma extends_refl: "extends n P n P"
  by (simp add: extends_def)

lemma extends_trans: "extends n P n' P' \<Longrightarrow> extends n' P' n'' P'' \<Longrightarrow> extends n P n'' P''"
  unfolding extends_def by (auto 0 3 dest: le_trans)

lemma ok_cmd_extends: "ok_cmd n P c \<Longrightarrow> extends n P n' P' \<Longrightarrow> ok_cmd n' P' c"
proof (induction n P c rule: ok_cmd.induct)
  case (4 n P q)
  then show ?case by (auto simp: list_all_iff)
next
  case (5 n P c body)
  show ?case
  proof (cases c)
    case closedchan
    then show ?thesis by simp
  next
    case (Chan d)
    from 5(1) Chan consider "body = []" "d < n" "d \<notin> Range P"
      | keys cs f where "body = [ForRange keys cs, Close (Chan f)]" "(d, f) \<in> P"
      by auto
    then show ?thesis
    proof cases
      case 1
      have "d \<notin> Range P'"
      proof
        assume "d \<in> Range P'"
        then obtain x where x: "(x, d) \<in> P'" by blast
        then have "(x, d) \<notin> P" using 1(3) by blast
        then have "n \<le> d" using 5(2) x unfolding extends_def by blast
        then show False using 1(2) by simp
      qed
      then show ?thesis using 1 5(2) Chan by (auto simp: extends_def)
    next
      case 2
      then show ?thesis using 5(2) Chan by (auto simp: extends_def)
    qed
  qed
qed simp_all

lemma guarded_extends: "guarded n P q \<Longrightarrow> extends n P n' P' \<Longrightarrow> guarded n' P' q"
  by (auto simp: guarded_def list_all_iff intro: ok_cmd_extends)

lemma shape_extends: "shape n P q \<Longrightarrow> extends n P n' P' \<Longrightarrow> shape n' P' q"
  unfolding shape_def
  by (cases "committed q") (auto intro: guarded_extends simp: extends_def)

lemma sound_init: "sound {} init"
  by (simp add: sound_def init_def)

lemma sound_go:
  assumes "sound P w" and "guarded (made w) P q"
  shows "sound P (go q w)"
proof -
  have c: "committed q = None" using assms(2) by (rule guarded_committed)
  have nth: "\<And>a f. a < length (goroutines w @ [q]) \<Longrightarrow> committed ((goroutines w @ [q]) ! a) = Some f
      \<Longrightarrow> a < length (goroutines w) \<and> (goroutines w @ [q]) ! a = goroutines w ! a"
    using c by (auto simp: nth_append split: if_splits)
  show ?thesis
    unfolding sound_def go_def
  proof (intro conjI)
    show "\<forall>i<length (goroutines (w\<lparr>goroutines := goroutines w @ [q]\<rparr>)).
       \<forall>j<length (goroutines (w\<lparr>goroutines := goroutines w @ [q]\<rparr>)).
          \<forall>f. committed (goroutines (w\<lparr>goroutines := goroutines w @ [q]\<rparr>) ! i) = Some f \<and>
              committed (goroutines (w\<lparr>goroutines := goroutines w @ [q]\<rparr>) ! j) = Some f \<longrightarrow>
              i = j"
    proof (intro allI impI)
      fix i j f
      assume i: "i < length (goroutines (w\<lparr>goroutines := goroutines w @ [q]\<rparr>))"
        and j: "j < length (goroutines (w\<lparr>goroutines := goroutines w @ [q]\<rparr>))"
        and e: "committed (goroutines (w\<lparr>goroutines := goroutines w @ [q]\<rparr>) ! i) = Some f \<and>
              committed (goroutines (w\<lparr>goroutines := goroutines w @ [q]\<rparr>) ! j) = Some f"
      have "i < length (goroutines w)" "committed (goroutines w ! i) = Some f"
        using nth[of i f] i e by auto
      moreover have "j < length (goroutines w)" "committed (goroutines w ! j) = Some f"
        using nth[of j f] j e by auto
      ultimately show "i = j" using assms(1) unfolding sound_def by blast
    qed
  qed (use assms c in \<open>auto simp: sound_def guarded_shape\<close>)
qed

lemma sound_extends:
  assumes "sound P w" and "extends (made w) P n' P'"
    and "\<forall>d f. (d, f) \<in> P' \<and> (d, f) \<notin> P \<longrightarrow> made w \<le> d \<and> d < n' \<and> f < n'"
    and "\<forall>d d' f. (d, f) \<in> P' \<and> (d', f) \<in> P' \<and> (d, f) \<notin> P \<longrightarrow> d = d'"
    and "\<forall>d f d' f'. (d, f) \<in> P' \<and> (d', f') \<in> P' \<and> ((d, f) \<notin> P \<or> (d', f') \<notin> P) \<longrightarrow> d \<noteq> f'"
  shows "sound P' (w\<lparr>made := n'\<rparr>)"
proof -
  have pairs: "\<And>d f. (d, f) \<in> P \<Longrightarrow> d < made w \<and> f < made w \<and> (f \<in> closed_chans w \<longrightarrow> d \<in> closed_chans w)"
    and func: "\<And>d d' f. (d, f) \<in> P \<Longrightarrow> (d', f) \<in> P \<Longrightarrow> d = d'"
    and disj: "Domain P \<inter> Range P = {}"
    and bound: "closed_chans w \<subseteq> {..<made w}"
    and shapes: "\<And>r. r \<in> set (goroutines w) \<Longrightarrow> shape (made w) P r"
    and uniq: "\<And>a b f. a < length (goroutines w) \<Longrightarrow> b < length (goroutines w) \<Longrightarrow>
        committed (goroutines w ! a) = Some f \<Longrightarrow> committed (goroutines w ! b) = Some f \<Longrightarrow> a = b"
    and comm: "\<And>r f. r \<in> set (goroutines w) \<Longrightarrow> committed r = Some f \<Longrightarrow>
        f \<notin> closed_chans w \<and> (\<forall>d. (d, f) \<in> P \<longrightarrow> d \<in> closed_chans w)"
    using assms(1) unfolding sound_def by (blast, blast, blast, blast, blast, blast, blast)
  have le: "made w \<le> n'" and sub: "P \<subseteq> P'"
    and fresh: "\<And>d f. (d, f) \<in> P' \<Longrightarrow> (d, f) \<notin> P \<Longrightarrow> made w \<le> f"
    using assms(2) unfolding extends_def by blast+
  have 1: "\<forall>(d, f) \<in> P'. d < n' \<and> f < n' \<and> (f \<in> closed_chans w \<longrightarrow> d \<in> closed_chans w)"
  proof (clarify)
    fix d f assume df: "(d, f) \<in> P'"
    show "d < n' \<and> f < n' \<and> (f \<in> closed_chans w \<longrightarrow> d \<in> closed_chans w)"
    proof (cases "(d, f) \<in> P")
      case True
      then show ?thesis using pairs[OF True] le by auto
    next
      case False
      then have "made w \<le> f" using fresh df by blast
      then have "f \<notin> closed_chans w" using bound by auto
      then show ?thesis using assms(3) df False by blast
    qed
  qed
  have 2: "\<forall>d d' f. (d, f) \<in> P' \<and> (d', f) \<in> P' \<longrightarrow> d = d'"
  proof (intro allI impI)
    fix d d' f assume a: "(d, f) \<in> P' \<and> (d', f) \<in> P'"
    show "d = d'"
    proof (cases "(d, f) \<in> P \<and> (d', f) \<in> P")
      case True
      then show ?thesis using func by blast
    next
      case False
      then show ?thesis using assms(4) a by metis
    qed
  qed
  have 3: "Domain P' \<inter> Range P' = {}"
  proof (rule ccontr)
    assume "Domain P' \<inter> Range P' \<noteq> {}"
    then obtain x f d' where x: "(x, f) \<in> P'" "(d', x) \<in> P'" by blast
    show False
    proof (cases "(x, f) \<in> P \<and> (d', x) \<in> P")
      case True
      then show ?thesis using disj by blast
    next
      case False
      then show ?thesis using assms(5) x by blast
    qed
  qed
  have 4: "closed_chans w \<subseteq> {..<n'}" using bound le by auto
  have 5: "\<forall>q \<in> set (goroutines w). shape n' P' q"
    using shapes shape_extends[OF _ assms(2)] by blast
  have 7: "\<forall>q \<in> set (goroutines w). \<forall>f. committed q = Some f \<longrightarrow>
        f \<notin> closed_chans w \<and> (\<forall>d. (d, f) \<in> P' \<longrightarrow> d \<in> closed_chans w)"
  proof (intro ballI allI impI)
    fix q f assume q: "q \<in> set (goroutines w)" and c: "committed q = Some f"
    have "f \<in> Range P" using shapes[OF q] c by (auto simp: shape_def)
    then have "f < made w" using pairs by blast
    then have "\<And>d. (d, f) \<in> P' \<Longrightarrow> (d, f) \<in> P" using fresh by force
    then show "f \<notin> closed_chans w \<and> (\<forall>d. (d, f) \<in> P' \<longrightarrow> d \<in> closed_chans w)"
      using comm[OF q c] by blast
  qed
  show ?thesis
    unfolding sound_def using 1 2 3 4 5 7 uniq by simp
qed

lemma known_extends: "known n P t \<Longrightarrow> extends n P n' P' \<Longrightarrow> known n' P' t"
  unfolding known_def by (blast intro: guarded_extends ok_cmd_extends)

lemma made_go [simp]: "made (go q w) = made w"
  by (simp add: go_def)

lemma merge_loop_sound:
  "sound P w \<Longrightarrow> \<forall>s. Some s \<in> set xs \<longrightarrow> guarded (made w) P (close s) \<Longrightarrow>
   sound P (snd (merge_loop i xs dn ss tc w)) \<and> made (snd (merge_loop i xs dn ss tc w)) = made w"
proof (induction i xs dn ss tc w rule: merge_loop.induct)
  case (1 i dn ss tc w)
  then show ?case by simp
next
  case (2 i rest dn ss tc w)
  then show ?case by simp
next
  case (3 i s rest dn ss tc w)
  show ?case
  proof (cases "is_closed (closed_chans w) (finishSig s)")
    case True
    then show ?thesis using 3 by simp
  next
    case False
    have g: "guarded (made w) P (Recv dn # close s)"
      using 3(4) by (simp add: guarded_Cons)
    have s: "sound P (addToCloseStream dn s w)"
      unfolding addToCloseStream_def using 3(3) g by (rule sound_go)
    have m: "made (addToCloseStream dn s w) = made w"
      by (simp add: addToCloseStream_def)
    show ?thesis
      using 3(2)[OF False s] 3(4) m False by simp
  qed
qed

lemma sound_pair_bound: "sound P w \<Longrightarrow> (d, f) \<in> P \<Longrightarrow> d < made w \<and> f < made w"
  unfolding sound_def by blast

lemma merge_sound:
  assumes s: "sound P w" and k: "\<forall>c. Some c \<in> set xs \<longrightarrow> guarded (made w) P (close c)"
  shows "\<exists>P'. sound P' (snd (merge xs w)) \<and> extends (made w) P (made (snd (merge xs w))) P'
      \<and> guarded (made (snd (merge xs w))) P' (group_close (fst (merge xs w)))"
proof (cases "xs = []")
  case True
  then have "merge xs w = (G [] [] closedchan closedchan, w)" by (simp add: merge_def)
  then show ?thesis
    using s by (auto simp: extends_refl guarded_def group_close_def intro!: exI[of _ P])
next
  case False
  define m where "m = made w"
  define P' where "P' = insert (m, Suc m) P"
  define w2 where "w2 = w\<lparr>made := Suc (Suc m)\<rparr>"
  have old: "\<And>d f. (d, f) \<in> P \<Longrightarrow> d < m \<and> f < m"
    using sound_pair_bound[OF s] by (simp add: m_def)
  have ext: "extends (made w) P (Suc (Suc m)) P'"
    by (auto simp: extends_def P'_def m_def)
  have nofin: "\<And>d. (d, Suc m) \<notin> P" "\<And>f. (Suc m, f) \<notin> P" "\<And>d. (d, m) \<notin> P" "\<And>f. (m, f) \<notin> P"
    using old by fastforce+
  have s2: "sound P' w2"
    unfolding w2_def
  proof (rule sound_extends[OF s ext])
    show "\<forall>d f. (d, f) \<in> P' \<and> (d, f) \<notin> P \<longrightarrow> made w \<le> d \<and> d < Suc (Suc m) \<and> f < Suc (Suc m)"
      by (auto simp: P'_def m_def)
    show "\<forall>d d' f. (d, f) \<in> P' \<and> (d', f) \<in> P' \<and> (d, f) \<notin> P \<longrightarrow> d = d'"
      using nofin by (auto simp: P'_def)
    show "\<forall>d f d' f'. (d, f) \<in> P' \<and> (d', f') \<in> P' \<and> ((d, f) \<notin> P \<or> (d', f') \<notin> P) \<longrightarrow> d \<noteq> f'"
      using nofin by (auto simp: P'_def)
  qed
  have k2: "\<forall>c. Some c \<in> set xs \<longrightarrow> guarded (made w2) P' (close c)"
    using k guarded_extends[OF _ ext] by (simp add: w2_def)
  obtain ss tc w3 where ml: "merge_loop 0 xs (Chan m) [] [] w2 = ((ss, tc), w3)"
    by (metis surj_pair)
  have s3: "sound P' w3" and m3: "made w3 = Suc (Suc m)"
    using merge_loop_sound[OF s2 k2, of 0 "Chan m" "[]" "[]"] ml by (simp_all add: w2_def)
  have mg: "merge xs w = (G ss tc (Chan m) (Chan (Suc m)), w3)"
    using False ml by (simp add: merge_def make_chan_def m_def w2_def)
  have "guarded (Suc (Suc m)) P' (group_close (G ss tc (Chan m) (Chan (Suc m))))"
    by (simp add: guarded_def group_close_def P'_def)
  then show ?thesis
    using s3 m3 ext mg by (auto intro!: exI[of _ P'])
qed

lemma sound_bump:
  assumes "sound P w"
  shows "sound P (w\<lparr>made := made w + k\<rparr>)" and "extends (made w) P (made w + k) P"
proof -
  show ext: "extends (made w) P (made w + k) P" by (simp add: extends_def)
  show "sound P (w\<lparr>made := made w + k\<rparr>)"
    by (rule sound_extends[OF assms ext]) auto
qed

lemma fresh_ok:
  assumes "sound P w" and "made w \<le> d" and "d < n"
  shows "ok_cmd n P (Once (Chan d) [])"
proof -
  have "d \<notin> Range P"
    using sound_pair_bound[OF assms(1)] assms(2) by fastforce
  then show ?thesis using assms(3) by simp
qed

lemma known_group:
  "guarded n P (group_close g) \<Longrightarrow>
   known n P (groupState g) \<and> known n P (waitState g c) \<and> known n P (errState g err)
   \<and> known n P (errGroupState g err) \<and> known n P (valueState g key val)
   \<and> known n P (readinessState g r) \<and> known n P (annotationState g a)"
  by (simp add: known_def)

lemma children_guarded:
  "\<forall>c. Some c \<in> set xs \<longrightarrow> known n P c \<Longrightarrow> \<forall>c. Some c \<in> set xs \<longrightarrow> guarded n P (close c)"
  by (simp add: known_def)

lemma Merge_sound:
  assumes "sound P w" and "\<forall>c. Some c \<in> set xs \<longrightarrow> known (made w) P c"
  shows "\<exists>P'. sound P' (snd (Merge xs w)) \<and> extends (made w) P (made (snd (Merge xs w))) P'
      \<and> known (made (snd (Merge xs w))) P' (fst (Merge xs w))"
  using merge_sound[OF assms(1) children_guarded[OF assms(2)]]
  by (auto simp: Merge_def case_prod_beta known_group)

lemma withWait_sound:
  assumes "sound P w" and "\<forall>c. Some c \<in> set xs \<longrightarrow> known (made w) P c"
  shows "\<exists>P'. sound P' (snd (withWait xs w)) \<and> extends (made w) P (made (snd (withWait xs w))) P'
      \<and> known (made (snd (withWait xs w))) P' (fst (withWait xs w))"
  using merge_sound[OF assms(1) children_guarded[OF assms(2)]]
  by (auto simp: withWait_def case_prod_beta known_group)

lemma withError_sound:
  assumes "sound P w" and "\<forall>c. Some c \<in> set xs \<longrightarrow> known (made w) P c"
  shows "\<exists>P'. sound P' (snd (withError err xs w)) \<and> extends (made w) P (made (snd (withError err xs w))) P'
      \<and> known (made (snd (withError err xs w))) P' (fst (withError err xs w))"
  using merge_sound[OF assms(1) children_guarded[OF assms(2)]]
  by (auto simp: withError_def case_prod_beta known_group)

lemma withErrorGroup_sound:
  assumes "sound P w" and "\<forall>c. Some c \<in> set xs \<longrightarrow> known (made w) P c"
  shows "\<exists>P'. sound P' (snd (withErrorGroup xs w)) \<and> extends (made w) P (made (snd (withErrorGroup xs w))) P'
      \<and> known (made (snd (withErrorGroup xs w))) P' (fst (withErrorGroup xs w))"
  using merge_sound[OF assms(1) children_guarded[OF assms(2)]]
  by (auto simp: withErrorGroup_def case_prod_beta known_group)

lemma withAnnotation_sound:
  assumes "sound P w" and "\<forall>c. Some c \<in> set xs \<longrightarrow> known (made w) P c"
  shows "\<exists>P'. sound P' (snd (withAnnotation a xs w)) \<and> extends (made w) P (made (snd (withAnnotation a xs w))) P'
      \<and> known (made (snd (withAnnotation a xs w))) P' (fst (withAnnotation a xs w))"
  using merge_sound[OF assms(1) children_guarded[OF assms(2)]]
  by (auto simp: withAnnotation_def case_prod_beta known_group)

lemma withValue_sound:
  assumes "sound P w" and "\<forall>c. Some c \<in> set xs \<longrightarrow> known (made w) P c"
    and "withValue key val xs w = Inr (t, w')"
  shows "\<exists>P'. sound P' w' \<and> extends (made w) P (made w') P' \<and> known (made w') P' t"
proof -
  from assms(3) have "t = valueState (fst (merge xs w)) key val" "w' = snd (merge xs w)"
    by (auto simp: withValue_def case_prod_beta split: option.splits if_splits)
  then show ?thesis
    using merge_sound[OF assms(1) children_guarded[OF assms(2)]] by (auto simp: known_group)
qed

lemma withReadiness_sound:
  assumes "sound P w" and "\<forall>c. Some c \<in> set xs \<longrightarrow> known (made w) P c"
  shows "\<exists>P'. sound P' (snd (withReadiness xs w)) \<and> extends (made w) P (made (snd (withReadiness xs w))) P'
      \<and> known (made (snd (withReadiness xs w))) P' (fst (withReadiness xs w))"
proof -
  obtain g w1 where m: "merge xs w = (g, w1)" by (metis surj_pair)
  obtain P1 where s1: "sound P1 w1" and e1: "extends (made w) P (made w1) P1"
    and g1: "guarded (made w1) P1 (group_close g)"
    using merge_sound[OF assms(1) children_guarded[OF assms(2)]] m by auto
  have r: "withReadiness xs w = (readinessState g (Chan (made w1)), w1\<lparr>made := made w1 + 1\<rparr>)"
    using m by (simp add: withReadiness_def make_chan_def)
  have "known (made w1 + 1) P1 (readinessState g (Chan (made w1)))"
    using guarded_extends[OF g1 sound_bump(2)[OF s1, of 1]] by (simp add: known_group)
  then show ?thesis
    using r sound_bump[OF s1, of 1] extends_trans[OF e1 sound_bump(2)[OF s1, of 1]]
    by (auto intro!: exI[of _ P1])
qed

lemma withShutdown_sound:
  assumes "sound P w" and "\<forall>c. Some c \<in> set xs \<longrightarrow> known (made w) P c"
  shows "\<exists>P'. sound P' (snd (withShutdown xs w)) \<and> extends (made w) P (made (snd (withShutdown xs w))) P'
      \<and> known (made (snd (withShutdown xs w))) P' (fst (withShutdown xs w))"
proof -
  obtain g w1 where m: "merge xs w = (g, w1)" by (metis surj_pair)
  obtain P1 where s1: "sound P1 w1" and e1: "extends (made w) P (made w1) P1"
    and g1: "guarded (made w1) P1 (group_close g)"
    using merge_sound[OF assms(1) children_guarded[OF assms(2)]] m by auto
  have r: "withShutdown xs w =
      (shutdownState g (Chan (made w1 + 1)) (Chan (made w1)), w1\<lparr>made := made w1 + 2\<rparr>)"
    using m by (simp add: withShutdown_def make_chan_def)
  have g2: "guarded (made w1 + 2) P1 (group_close g)"
    using guarded_extends[OF g1 sound_bump(2)[OF s1, of 2]] .
  have "ok_cmd (made w1 + 2) P1 (Once (Chan (made w1 + 1)) [])"
    by (rule fresh_ok[OF s1]) simp_all
  moreover have "ok_cmd (made w1 + 2) P1 (Once (Chan (made w1)) [])"
    by (rule fresh_ok[OF s1]) simp_all
  ultimately have "known (made w1 + 2) P1 (shutdownState g (Chan (made w1 + 1)) (Chan (made w1)))"
    using g2 unfolding known_def by (simp add: guarded_def)
  then show ?thesis
    using r sound_bump[OF s1, of 2] extends_trans[OF e1 sound_bump(2)[OF s1, of 2]]
    by (auto intro!: exI[of _ P1])
qed

lemma withDependency_sound:
  assumes "sound P w" and "known (made w) P parent"
    and "\<forall>c. Some c \<in> set xs \<longrightarrow> known (made w) P c"
  shows "\<exists>P'. sound P' (snd (withDependency parent xs w))
      \<and> extends (made w) P (made (snd (withDependency parent xs w))) P'
      \<and> known (made (snd (withDependency parent xs w))) P' (fst (withDependency parent xs w))"
proof -
  obtain g w1 where m: "merge xs w = (g, w1)" by (metis surj_pair)
  obtain P1 where s1: "sound P1 w1" and e1: "extends (made w) P (made w1) P1"
    and g1: "guarded (made w1) P1 (group_close g)"
    using merge_sound[OF assms(1) children_guarded[OF assms(3)]] m by auto
  have r: "withDependency parent xs w =
      (dependState g parent (Chan (made w1)), w1\<lparr>made := made w1 + 1\<rparr>)"
    using m by (simp add: withDependency_def make_chan_def)
  have e2: "extends (made w) P (made w1 + 1) P1"
    using extends_trans[OF e1 sound_bump(2)[OF s1, of 1]] .
  have g2: "guarded (made w1 + 1) P1 (group_close g)"
    using guarded_extends[OF g1 sound_bump(2)[OF s1, of 1]] .
  have p: "guarded (made w1 + 1) P1 (close parent)"
    using known_extends[OF assms(2) e2] by (simp add: known_def)
  have "ok_cmd (made w1 + 1) P1 (Once (Chan (made w1)) [])"
    by (rule fresh_ok[OF s1]) simp_all
  then have "known (made w1 + 1) P1 (dependState g parent (Chan (made w1)))"
    using g2 p unfolding known_def by (simp add: guarded_append guarded_Cons) (simp add: guarded_def)
  then show ?thesis
    using r sound_bump[OF s1, of 1] e2 by (auto intro!: exI[of _ P1])
qed

lemma user_guarded:
  "user T q \<Longrightarrow> \<forall>t \<in> T. known n P t \<Longrightarrow> guarded n P q"
proof (induction rule: user.induct)
  case (user_Nil T)
  then show ?case by (simp add: guarded_def)
next
  case (user_Recv T q c)
  then show ?case by (simp add: guarded_Cons)
next
  case (user_Done g e dn T q)
  then have "ok_cmd n P (Once dn [])" unfolding known_def by blast
  then show ?case using user_Done by (simp add: guarded_Cons)
next
  case (user_close t T q)
  then show ?case by (simp add: guarded_append known_def)
next
  case (user_Go T p q)
  then show ?case by (simp add: guarded_Cons guarded_def)
qed

lemma made_sched [simp]: "made (sched ev w) = made w"
  by (auto simp: sched_def split: step_result.splits)

lemma known_all_extends:
  "\<forall>t \<in> T. known n P t \<Longrightarrow> extends n P n' P' \<Longrightarrow> known n' P' t' \<Longrightarrow>
   \<forall>t \<in> insert t' T. known n' P' t"
  by (auto intro: known_extends)

lemma children_known:
  "\<forall>t \<in> T. known n P t \<Longrightarrow> \<forall>c. Some c \<in> set xs \<longrightarrow> c \<in> T \<Longrightarrow>
   \<forall>c. Some c \<in> set xs \<longrightarrow> known n P c"
  by blast

lemma panicked_merge_loop: "panicked (snd (merge_loop i xs dn ss tc w)) = panicked w"
  by (induction i xs dn ss tc w rule: merge_loop.induct) (auto simp: addToCloseStream_def go_def)

lemma panicked_merge: "panicked (snd (merge xs w)) = panicked w"
  by (simp add: merge_def make_chan_def case_prod_beta panicked_merge_loop)

subsection \<open>Every step of a program keeps the invariant\<close>

lemma api_sound:
  assumes "api (w, T) (w', T')" and s: "sound P w" and k: "\<forall>t \<in> T. known (made w) P t"
  shows "\<exists>P'. sound P' w' \<and> (\<forall>t \<in> T'. known (made w') P' t) \<and> extends (made w) P (made w') P'"
  using assms(1)
proof (cases rule: api.cases)
  case api_Empty
  then show ?thesis using s k by (auto simp: known_def Empty_def guarded_def extends_refl)
next
  case (api_Merge xs)
  from Merge_sound[OF s children_known[OF k api_Merge(3)]]
  show ?thesis unfolding api_Merge(1,2) using known_all_extends[OF k] by blast
next
  case (api_withShutdown xs)
  from withShutdown_sound[OF s children_known[OF k api_withShutdown(3)]]
  show ?thesis unfolding api_withShutdown(1,2) using known_all_extends[OF k] by blast
next
  case (api_withWait xs)
  from withWait_sound[OF s children_known[OF k api_withWait(3)]]
  show ?thesis unfolding api_withWait(1,2) using known_all_extends[OF k] by blast
next
  case (api_withError xs err)
  from withError_sound[OF s children_known[OF k api_withError(3)], of err]
  show ?thesis unfolding api_withError(1,2) using known_all_extends[OF k] by blast
next
  case (api_withErrorGroup xs)
  from withErrorGroup_sound[OF s children_known[OF k api_withErrorGroup(3)]]
  show ?thesis unfolding api_withErrorGroup(1,2) using known_all_extends[OF k] by blast
next
  case (api_withValue xs key val t)
  from withValue_sound[OF s children_known[OF k api_withValue(2)] api_withValue(3)]
  show ?thesis unfolding api_withValue(1) using known_all_extends[OF k] by blast
next
  case (api_withReadiness xs)
  from withReadiness_sound[OF s children_known[OF k api_withReadiness(3)]]
  show ?thesis unfolding api_withReadiness(1,2) using known_all_extends[OF k] by blast
next
  case (api_DependsOn parent xs)
  have "known (made w) P parent" using k api_DependsOn(3) by blast
  from withDependency_sound[OF s this children_known[OF k api_DependsOn(4)]]
  show ?thesis unfolding api_DependsOn(1,2) DependsOn_def using known_all_extends[OF k] by blast
next
  case (api_withAnnotation xs a)
  from withAnnotation_sound[OF s children_known[OF k api_withAnnotation(3)], of a]
  show ?thesis unfolding api_withAnnotation(1,2) using known_all_extends[OF k] by blast
next
  case (api_Error g e err)
  then have "known (made w) P (errGroupState g e)" using k by blast
  then have "known (made w) P (errGroupState_Error (errGroupState g e) err)"
    by (simp add: known_def)
  then show ?thesis using api_Error s k by (auto simp: extends_refl)
next
  case (api_Add g n i t)
  then have "known (made w) P (waitState g n)" using k by blast
  moreover obtain n' where "t = waitState g n'"
    using api_Add(4) by (auto split: sum.splits)
  ultimately have "known (made w) P t" by (simp add: known_def)
  then show ?thesis using api_Add s k by (auto simp: extends_refl)
next
  case (api_go q)
  from sound_go[OF s user_guarded[OF api_go(3) k]] k
  show ?thesis unfolding api_go(1,2) by (auto simp: extends_refl)
next
  case (api_sched ev)
  then show ?thesis using sound_sched[OF s, of ev] k by (auto simp: extends_refl)
qed

lemma merge_loop_frame:
  "\<exists>ws. goroutines (snd (merge_loop i xs dn ss tc w)) = goroutines w @ ws
     \<and> closed_chans (snd (merge_loop i xs dn ss tc w)) = closed_chans w"
proof (induction i xs dn ss tc w rule: merge_loop.induct)
  case (3 i s rest dn ss tc w)
  then show ?case
    by (cases "is_closed (closed_chans w) (finishSig s)")
       (auto simp: addToCloseStream_def go_def)
qed simp_all

lemma merge_frame:
  "\<exists>ws. goroutines (snd (merge xs w)) = goroutines w @ ws
     \<and> closed_chans (snd (merge xs w)) = closed_chans w"
proof (cases "xs = []")
  case True
  then show ?thesis by (simp add: merge_def)
next
  case False
  then show ?thesis
    using merge_loop_frame[of 0 xs "Chan (made w)" "[]" "[]" "w\<lparr>made := Suc (Suc (made w))\<rparr>"]
    by (simp add: merge_def make_chan_def case_prod_beta)
qed

lemma api_frame_or_sched:
  assumes "api (w, T) (w', T')"
  shows "frame w w' \<or> (\<exists>ev. w' = sched ev w)"
  using assms
proof (cases rule: api.cases)
  case (api_withValue xs key val t)
  then have "w' = snd (merge xs w)"
    by (auto simp: withValue_def case_prod_beta split: option.splits if_splits)
  then show ?thesis using merge_frame[of xs w] by (simp add: frame_def panicked_merge)
next
  case (api_sched ev)
  then show ?thesis by blast
qed (use merge_frame[of _ w] in \<open>auto simp: frame_def go_def Merge_def withShutdown_def withWait_def
      withError_def withErrorGroup_def withReadiness_def withDependency_def DependsOn_def
      withAnnotation_def make_chan_def case_prod_beta panicked_merge\<close>)

lemma api_post:
  assumes "api (w, T) (w', T')" and "i < length (goroutines w)"
    and "is_closed (closed_chans w) c \<or> c \<in> post (goroutines w ! i)"
  shows "i < length (goroutines w') \<and>
     (is_closed (closed_chans w') c \<or> c \<in> post (goroutines w' ! i))"
proof -
  from api_frame_or_sched[OF assms(1)] consider "frame w w'" | ev where "w' = sched ev w"
    by blast
  then show ?thesis
  proof cases
    case 1
    then show ?thesis using assms(2,3) by (auto simp: frame_def nth_append)
  next
    case 2
    have "i < length (goroutines w')"
      using assms(2) sched_length[of w ev] 2 by simp
    moreover have "is_closed (closed_chans w') c \<or> c \<in> post (goroutines w' ! i)"
      using assms(3) sched_post[OF assms(2), of c ev] is_closed_mono[OF _ sched_closed_mono, of w c ev] 2
      by blast
    ultimately show ?thesis by simp
  qed
qed

lemma api_star_post:
  assumes "api\<^sup>*\<^sup>* (w, T) (w', T')" and "i < length (goroutines w)"
    and "is_closed (closed_chans w) c \<or> c \<in> post (goroutines w ! i)"
  shows "i < length (goroutines w') \<and>
     (is_closed (closed_chans w') c \<or> c \<in> post (goroutines w' ! i))"
  using assms
proof (induction rule: rtranclp_induct2)
  case refl
  then show ?case by simp
next
  case (step w1 T1 w2 T2)
  then show ?case using api_post[of w1 T1 w2 T2 i c] by blast
qed

lemma api_no_double_close:
  assumes "api (w, T) (w', T')" and "sound P w" and "panicked w \<noteq> Some close_of_closed_channel"
  shows "panicked w' \<noteq> Some close_of_closed_channel"
proof -
  from api_frame_or_sched[OF assms(1)] consider "frame w w'" | ev where "w' = sched ev w"
    by blast
  then show ?thesis
  proof cases
    case 1
    then show ?thesis using assms(3) by (simp add: frame_def)
  next
    case 2
    then show ?thesis using sched_no_double_close[OF assms(2,3)] by simp
  qed
qed

lemma api_safe:
  assumes "api (w, T) (w', T')" and "safe w T q"
  shows "safe w' T' q"
proof -
  from assms(2) obtain P where P: "sound P w" "\<forall>t \<in> T. known (made w) P t"
    "guarded (made w) P q" and n: "panicked w \<noteq> Some close_of_closed_channel"
    unfolding safe_def by blast
  from api_sound[OF assms(1) P(1,2)] obtain P' where P': "sound P' w'"
    "\<forall>t \<in> T'. known (made w') P' t" "extends (made w) P (made w') P'"
    by blast
  have "guarded (made w') P' q" using P(3) P'(3) by (rule guarded_extends)
  then show ?thesis
    unfolding safe_def using P' api_no_double_close[OF assms(1) P(1) n] by blast
qed

lemma api_star_safe:
  assumes "api\<^sup>*\<^sup>* (w, T) (w', T')" and "safe w T q"
  shows "safe w' T' q"
  using assms
proof (induction rule: rtranclp_induct2)
  case refl
  then show ?case by simp
next
  case (step w1 T1 w2 T2)
  then show ?case using api_safe by blast
qed

lemma safe_init: "safe init {} []"
  unfolding safe_def using sound_init by (auto simp: guarded_def init_def)

lemma sound_shape: "sound P w \<Longrightarrow> r \<in> set (goroutines w) \<Longrightarrow> shape (made w) P r"
  unfolding sound_def by blast

lemma safe_program:
  assumes "safe w T q" and "r \<in> set (goroutines w)" and "committed r = None"
  shows "safe w T r"
proof -
  from assms(1) obtain P where P: "sound P w" "\<forall>t \<in> T. known (made w) P t"
    and n: "panicked w \<noteq> Some close_of_closed_channel"
    unfolding safe_def by blast
  have "guarded (made w) P r"
    using sound_shape[OF P(1) assms(2)] assms(3) by (simp add: shape_def)
  then show ?thesis unfolding safe_def using P n by blast
qed

lemma safe_go: "safe w T q \<Longrightarrow> safe (go q w) T q"
  unfolding safe_def using sound_go by (auto simp: go_def)

lemma api_run: "api\<^sup>*\<^sup>* (w, T) (run evs w, T)"
  unfolding run_def
proof (induction evs arbitrary: w)
  case Nil
  then show ?case by simp
next
  case (Cons ev evs)
  have "api (w, T) (sched ev w, T)" by (rule api_sched)
  then show ?case using Cons[of "sched ev w"] by (simp add: converse_rtranclp_into_rtranclp)
qed

lemma built_step: "built w T \<Longrightarrow> api (w, T) (w', T') \<Longrightarrow> built w' T'"
  unfolding built_def by (rule rtranclp.rtrancl_into_rtrancl)

lemma built_init: "built init {}"
  unfolding built_def by simp

lemma built_example:
  "built
     \<lparr>closed_chans = {}, made = 4,
      goroutines =
        [[Recv (Chan 1), Once (Chan 0) []],
         [Recv (Chan 2), Go [Once closedchan [ForRange [] [], Close closedchan]],
          Recv closedchan, Once (Chan 1) []],
         [Once (Chan 2) [ForRange [0] [Chan 0], Close (Chan 3)]]],
      panicked = None\<rparr>
     {groupState (G [shutdownState (G [] [] closedchan closedchan) (Chan 1) (Chan 0)] [0]
        (Chan 2) (Chan 3)),
      shutdownState (G [] [] closedchan closedchan) (Chan 1) (Chan 0)}"
proof -
  let ?st1 = "shutdownState (G [] [] closedchan closedchan) (Chan 1) (Chan 0)"
  let ?st3 = "groupState (G [?st1] [0] (Chan 2) (Chan 3))"
  let ?w1 = "\<lparr>closed_chans = {}, made = 2, goroutines = [], panicked = None\<rparr>"
  let ?owner = "[Recv (Chan 1), Once (Chan 0) []]"
  let ?w2 = "\<lparr>closed_chans = {}, made = 2, goroutines = [?owner], panicked = None\<rparr>"
  let ?watch = "[Recv (Chan 2), Go [Once closedchan [ForRange [] [], Close closedchan]],
          Recv closedchan, Once (Chan 1) []]"
  let ?w3 = "\<lparr>closed_chans = {}, made = 4, goroutines = [?owner, ?watch], panicked = None\<rparr>"
  have e1: "withShutdown [] init = (?st1, ?w1)"
    by (simp add: withShutdown_def merge_def make_chan_def init_def)
  have "api (init, {}) (snd (withShutdown [] init), insert (fst (withShutdown [] init)) {})"
    by (rule api_withShutdown) simp
  then have "api (init, {}) (?w1, {?st1})" by (simp only: e1 fst_conv snd_conv)
  then have b1: "built ?w1 {?st1}" by (rule built_step[OF built_init])
  have "user {?st1} (Recv (Chan 1) # shutdownState_Done ?st1 @ [])"
    by (intro user_Recv user_Done user_Nil) simp
  then have "api (?w1, {?st1}) (go ?owner ?w1, {?st1})"
    using api_go[of "{?st1}" ?owner ?w1] by simp
  then have b2: "built ?w2 {?st1}"
    using built_step[OF b1] by (simp add: go_def)
  have e3: "Merge [Some ?st1] ?w2 = (?st3, ?w3)"
    by (simp add: Merge_def merge_def make_chan_def addToCloseStream_def go_def group_close_def
        eval_nat_numeral)
  have "api (?w2, {?st1}) (snd (Merge [Some ?st1] ?w2), insert (fst (Merge [Some ?st1] ?w2)) {?st1})"
    by (rule api_Merge) simp
  then have "api (?w2, {?st1}) (?w3, {?st3, ?st1})" by (simp only: e3 fst_conv snd_conv)
  then have b3: "built ?w3 {?st3, ?st1}" by (rule built_step[OF b2])
  have "user {?st3, ?st1} (close ?st3 @ [])"
    by (intro user_close user_Nil) simp
  then have "api (?w3, {?st3, ?st1}) (go (close ?st3) ?w3, {?st3, ?st1})"
    using api_go[of "{?st3, ?st1}" "close ?st3" ?w3] by simp
  then show ?thesis
    using built_step[OF b3] by (simp add: go_def group_close_def)
qed

subsection \<open>Closing a state that has been closed\<close>

section \<open>Shutdown and cause\<close>

text \<open>
  C1, as the code has it: \<^verbatim>\<open>Shutdown\<close> returns nil when its select takes the \<^verbatim>\<open>finishSig\<close>
  case (the signal is closed and the context has not expired, or Go picks it among the two),
  and the result of \<^verbatim>\<open>cause()\<close> when it takes the \<^verbatim>\<open>ctx.Done()\<close> case. The cause of a
  shutdown state is the cause of its group when that is not nil; otherwise it is nil when
  \<^verbatim>\<open>done\<close> is closed at the inspection and \<open>ErrTimeout\<close> when it is open. Every cause that is
  not nil is \<open>ErrTimeout\<close>, possibly wrapped in annotations.
\<close>

theorem Shutdown_result:
  "(is_closed F (finishSig c) \<and> (\<not> expired \<or> pick = case_finishSig) \<longrightarrow>
      Shutdown F expired pick F' c = Returns None)
   \<and> (expired \<and> (\<not> is_closed F (finishSig c) \<or> pick = case_ctx_Done) \<longrightarrow>
      Shutdown F expired pick F' c = Returns (cause F' c))
   \<and> cause F' (shutdownState (G ss tc d f) e dn) =
       (case first_non_nil (map (cause F') ss) of
          Some err \<Rightarrow> Some err
        | None \<Rightarrow> if is_closed F' dn then None else Some ErrTimeout)
   \<and> (cause F' c = Some err \<longrightarrow> Is err ErrTimeout)"
  using Shutdown_finishSig_first[of F c expired pick F']
    Shutdown_deadline_first[of expired F c pick F'] cause_Is_ErrTimeout[of F' c err]
  by (simp del: Shutdown.simps)

theorem Shutdown_result_witness:
  "Shutdown {} True case_ctx_Done {}
      (annotationState (G [shutdownState (G [] [] closedchan closedchan) (Chan 1) (Chan 0)] [0] (Chan 2) (Chan 3)) ''test'')
     = Returns (Some (Errorf ''test'' ErrTimeout))
   \<and> Is (Errorf ''test'' ErrTimeout) ErrTimeout
   \<and> Shutdown {0} False case_ctx_Done {0} (shutdownState (G [] [] closedchan closedchan) (Chan 1) (Chan 0)) = Returns None"
  using Shutdown_result[of "{}" "annotationState (G [shutdownState (G [] [] closedchan closedchan) (Chan 1) (Chan 0)] [0] (Chan 2) (Chan 3)) ''test''" True case_ctx_Done "{}" "[]" "[]" closedchan closedchan "Chan 1" "Chan 0" "Errorf ''test'' ErrTimeout"]
    Shutdown_result[of "{0}" "shutdownState (G [] [] closedchan closedchan) (Chan 1) (Chan 0)" False case_ctx_Done "{0}" "[]" "[]" closedchan closedchan "Chan 1" "Chan 0" "ErrTimeout"]
  by (simp del: Shutdown.simps)

text \<open>
  C1 as stated fails: a shutdown state whose owner called \<^verbatim>\<open>Done()\<close> while its child has
  not finished has its \<^verbatim>\<open>done\<close> closed (channel 4), yet its cause is \<open>ErrTimeout\<close>, and so
  is the result of a \<^verbatim>\<open>Shutdown\<close> whose deadline fires first.
\<close>

theorem done_fired_child_unfinished:
  "fst (withShutdown [Some (fst (withShutdown [] init))] (snd (withShutdown [] init))) =
     shutdownState (G [shutdownState (G [] [] closedchan closedchan) (Chan 1) (Chan 0)] [0] (Chan 2) (Chan 3))
       (Chan 5) (Chan 4)
   \<and> closed_chans (run [(1, 0)]
        (go (shutdownState_Done (shutdownState (G [shutdownState (G [] [] closedchan closedchan) (Chan 1) (Chan 0)] [0] (Chan 2) (Chan 3))
               (Chan 5) (Chan 4)))
           (snd (withShutdown [Some (fst (withShutdown [] init))] (snd (withShutdown [] init)))))) = {4}
   \<and> is_closed {4} (finishSig (shutdownState (G [shutdownState (G [] [] closedchan closedchan) (Chan 1) (Chan 0)] [0] (Chan 2) (Chan 3))
       (Chan 5) (Chan 4)))
   \<and> cause {4} (shutdownState (G [shutdownState (G [] [] closedchan closedchan) (Chan 1) (Chan 0)] [0] (Chan 2) (Chan 3))
       (Chan 5) (Chan 4)) = Some ErrTimeout
   \<and> Shutdown {} True case_ctx_Done {4} (shutdownState (G [shutdownState (G [] [] closedchan closedchan) (Chan 1) (Chan 0)] [0] (Chan 2) (Chan 3))
       (Chan 5) (Chan 4)) = Returns (Some ErrTimeout)"
  by (simp add: withShutdown_def merge_def make_chan_def init_def addToCloseStream_def go_def
      run_def sched_def shutdown_def group_close_def)

section \<open>Dependency\<close>

text \<open>
  C2 on \<^verbatim>\<open>withDependency(p, nil, a, Empty())\<close>, where \<open>a\<close> and \<open>p\<close> are shutdown states that
  have not finished: \<^verbatim>\<open>toClose\<close> holds the index 1 of \<open>a\<close> among the arguments, which in
  \<^verbatim>\<open>states\<close> is the empty state. The goroutine that runs \<^verbatim>\<open>close()\<close> of the dependency
  closes the children's \<^verbatim>\<open>finished\<close> (channel 5) and then the \<^verbatim>\<open>end\<close> of \<open>p\<close> (channel 3)
  while \<^verbatim>\<open>done\<close> of \<open>a\<close> (channel 0) is open.
\<close>

theorem dependency_parent_closed_before_child:
  "fst (withDependency
         (shutdownState (G [] [] closedchan closedchan) (Chan 3) (Chan 2))
         [None, Some (shutdownState (G [] [] closedchan closedchan) (Chan 1) (Chan 0)), Some Empty]
         (snd (withShutdown [] (snd (withShutdown [] init))))) =
     dependState
       (G [shutdownState (G [] [] closedchan closedchan) (Chan 1) (Chan 0), emptyState] [1]
          (Chan 4) (Chan 5))
       (shutdownState (G [] [] closedchan closedchan) (Chan 3) (Chan 2)) (Chan 6)
   \<and> closed_chans (run [(1, 0), (1, 0), (1, 0), (1, 0), (1, 0), (1, 0), (1, 0), (1, 0)]
        (go (close (dependState
               (G [shutdownState (G [] [] closedchan closedchan) (Chan 1) (Chan 0), emptyState] [1]
                  (Chan 4) (Chan 5))
               (shutdownState (G [] [] closedchan closedchan) (Chan 3) (Chan 2)) (Chan 6)))
           (snd (withDependency
              (shutdownState (G [] [] closedchan closedchan) (Chan 3) (Chan 2))
              [None, Some (shutdownState (G [] [] closedchan closedchan) (Chan 1) (Chan 0)), Some Empty]
              (snd (withShutdown [] (snd (withShutdown [] init)))))))) = {3, 4, 5}"
  by (simp add: withShutdown_def withDependency_def merge_def make_chan_def init_def
      addToCloseStream_def go_def run_def sched_def group_close_def Empty_def insert_commute)

section \<open>Group\<close>

text \<open>
  C3 on \<^verbatim>\<open>merge(nil, s)\<close> and \<^verbatim>\<open>merge(nil, s, Empty())\<close>, where \<open>s\<close> is a shutdown state that
  has not finished: \<^verbatim>\<open>states\<close> holds the non-nil arguments, \<^verbatim>\<open>toClose\<close> the index 1 of \<open>s\<close>
  among the arguments. \<^verbatim>\<open>close()\<close> of the first group panics at \<^verbatim>\<open>g.states[1]\<close>; the one of
  the second closes \<^verbatim>\<open>finished\<close> (channel 3) while \<^verbatim>\<open>done\<close> of \<open>s\<close> (channel 0) is open.
\<close>

theorem merge_nil_shifts_toClose:
  "fst (withShutdown [] init) = shutdownState (G [] [] closedchan closedchan) (Chan 1) (Chan 0)
   \<and> fst (merge [None, Some (fst (withShutdown [] init))] (snd (withShutdown [] init))) =
       G [shutdownState (G [] [] closedchan closedchan) (Chan 1) (Chan 0)] [1] (Chan 2) (Chan 3)
   \<and> panicked (run [(1, 0), (1, 0)]
        (go (close (groupState (fst (merge [None, Some (fst (withShutdown [] init))]
                                     (snd (withShutdown [] init))))))
            (snd (merge [None, Some (fst (withShutdown [] init))] (snd (withShutdown [] init))))))
       = Some index_out_of_range
   \<and> fst (merge [None, Some (fst (withShutdown [] init)), Some Empty] (snd (withShutdown [] init))) =
       G [shutdownState (G [] [] closedchan closedchan) (Chan 1) (Chan 0), emptyState] [1]
         (Chan 2) (Chan 3)
   \<and> closed_chans (run [(1, 0), (1, 0), (1, 0), (1, 0)]
        (go (close (groupState (fst (merge [None, Some (fst (withShutdown [] init)), Some Empty]
                                     (snd (withShutdown [] init))))))
            (snd (merge [None, Some (fst (withShutdown [] init)), Some Empty]
                   (snd (withShutdown [] init))))))
       = {2, 3}"
  by (simp add: withShutdown_def merge_def make_chan_def init_def addToCloseStream_def go_def
      run_def sched_def group_close_def Empty_def insert_commute eval_nat_numeral)

section \<open>Wait\<close>

text \<open>
  C4, as the code has it: a wait state starts with the counter 0; \<^verbatim>\<open>Add(3)\<close> and three
  \<^verbatim>\<open>Done()\<close> bring it back to 0, where \<^verbatim>\<open>Wait()\<close> returns as soon as the children's waits do;
  \<^verbatim>\<open>Wait()\<close> never returns while the counter is not 0; a \<^verbatim>\<open>Done()\<close> at counter 0 panics, as
  \<^verbatim>\<open>sync.WaitGroup\<close> does.
\<close>

theorem wait_barrier:
  "fst (withWait children w) = waitState (fst (merge children w)) 0
   \<and> and_then (and_then (and_then (waitState_Add (waitState g 0) 3) waitState_Done)
        waitState_Done) waitState_Done = Inr (waitState g 0)
   \<and> Wait_returns (waitState (G ss tc d f) 0) = list_all Wait_returns ss
   \<and> (n \<noteq> 0 \<longrightarrow> \<not> Wait_returns (waitState (G ss tc d f) n))
   \<and> waitState_Done (waitState g 0) = Inl negative_WaitGroup_counter"
  by (simp add: withWait_def and_then_def WaitGroup_Add_def split: prod.splits)

theorem wait_barrier_witness:
  "Wait_returns (waitState (G [] [] closedchan closedchan) 0)
   \<and> \<not> Wait_returns (waitState (G [] [] closedchan closedchan) 1)
   \<and> and_then (and_then (and_then
         (waitState_Add (waitState (G [] [] closedchan closedchan) 0) 3) waitState_Done)
         waitState_Done) waitState_Done = Inr (waitState (G [] [] closedchan closedchan) 0)"
  using wait_barrier[of "[]" init "G [] [] closedchan closedchan" "[]" "[]" closedchan closedchan 1]
  by simp

text \<open>C4 as stated fails: the fourth \<^verbatim>\<open>Done()\<close> after \<^verbatim>\<open>Add(3)\<close> panics.\<close>

theorem fourth_Done_panics:
  "and_then (and_then (and_then (and_then
      (waitState_Add (fst (withWait [] init)) 3) waitState_Done) waitState_Done) waitState_Done)
      waitState_Done = Inl negative_WaitGroup_counter"
  by (simp add: withWait_def merge_def and_then_def WaitGroup_Add_def)

section \<open>Error group\<close>

text \<open>
  C5: a new error group has no error; \<^verbatim>\<open>Error(nil)\<close> changes nothing; the first
  \<^verbatim>\<open>Error(e)\<close> with a non-nil \<open>e\<close> assigns it; whatever errors are passed to \<^verbatim>\<open>Error\<close>
  afterwards, the state is the same and \<^verbatim>\<open>Err()\<close> returns \<open>e\<close>.
\<close>

theorem errGroup_Error_first_wins:
  "Err (fst (withErrorGroup children w)) = None
   \<and> errGroupState_Error (errGroupState g cur) None = errGroupState g cur
   \<and> errGroupState_Error (errGroupState g None) (Some e) = errGroupState g (Some e)
   \<and> fold (\<lambda>err s. errGroupState_Error s err) errs (errGroupState g (Some e)) = errGroupState g (Some e)
   \<and> Err (fold (\<lambda>err s. errGroupState_Error s err) errs
         (errGroupState_Error (fst (withErrorGroup children w)) (Some e))) = Some e"
proof -
  have keep: "fold (\<lambda>err s. errGroupState_Error s err) errs (errGroupState h (Some e)) = errGroupState h (Some e)" for h
    by (induction errs) auto
  have new: "fst (withErrorGroup children w) = errGroupState (fst (merge children w)) None"
    by (simp add: withErrorGroup_def split: prod.splits)
  show ?thesis by (simp add: keep new)
qed

theorem errGroup_Error_first_wins_witness:
  "Err (fold (\<lambda>err s. errGroupState_Error s err) [Some (New ''error2''), None, Some (New ''error3'')]
         (errGroupState_Error (fst (withErrorGroup [] init)) (Some (New ''error1'')))) = Some (New ''error1'')"
  using errGroup_Error_first_wins[of "[]" init _ _ "New ''error1''" "[Some (New ''error2''), None, Some (New ''error3'')]"]
  by blast

section \<open>Value\<close>



text \<open>
  C9: \<^verbatim>\<open>withValue\<close> panics exactly when the key is nil or its type is not comparable;
  otherwise it returns the Value state with the key, the value and the merged children.
\<close>

theorem withValue_panics_iff:
  "((\<exists>p. withValue key val children w = Inl p) \<longleftrightarrow>
      (key = None \<or> (\<exists>t x. key = Some (t, x) \<and> \<not> Comparable t)))
   \<and> (\<forall>t x. key = Some (t, x) \<and> Comparable t \<longrightarrow>
        withValue key val children w =
          Inr (valueState (fst (merge children w)) key val, snd (merge children w))
        \<and> g_states (fst (merge children w)) = map the (filter (\<lambda>c. c \<noteq> None) children))"
  by (auto simp: withValue_def merge_states split: option.splits prod.splits)

theorem withValue_panics_iff_witness:
  "withValue (Some (NamedT ''key'' StringT, 7)) (Some (StringT, 1)) [] init =
     Inr (valueState (G [] [] closedchan closedchan) (Some (NamedT ''key'' StringT, 7))
            (Some (StringT, 1)), init)
   \<and> withValue None (Some (StringT, 1)) [] init = Inl nil_state_value_key
   \<and> withValue (Some (FuncT, 0)) (Some (StringT, 1)) [] init = Inl state_value_key_is_not_comparable"
  using withValue_panics_iff[of "Some (NamedT ''key'' StringT, 7)" "Some (StringT, 1)" "[]" init]
  by (simp add: withValue_def merge_def)

text \<open>
  C10: a Value state that stores nil for \<open>key\<close> returns nil for \<open>key\<close> although its child
  holds a value for \<open>key\<close>; as the child of a group it is passed over, and the group returns
  what its later children return.
\<close>

theorem nil_value_position:
  "Value (valueState (G ss2 tc2 d2 f2) key (Some v)) key = Some v
   \<and> Value (valueState (G (valueState (G ss2 tc2 d2 f2) key (Some v) # ss) tc d f) key None) key = None
   \<and> Value (groupState (G [valueState (G (valueState (G ss2 tc2 d2 f2) key (Some v) # ss) tc d f) key None,
                             valueState (G ss3 tc3 d3 f3) key (Some v')] tc' d' f')) key = Some v'
   \<and> Value (groupState (G (valueState (G ss tc d f) key None # rest) tc' d' f')) key =
       Value (groupState (G rest tc' d' f')) key"
  by simp

section \<open>Err of groups and annotations\<close>

text \<open>
  C7: the group made by \<^verbatim>\<open>merge\<close> holds the non-nil states in their order; \<^verbatim>\<open>Err()\<close> of a
  group is the error of its first child that has one, and nil when no child has one;
  \<^verbatim>\<open>Err()\<close> of an annotation is that error wrapped, its text prefixed with the label and a
  colon, and nil, not wrapped, when no child has an error.
\<close>

theorem group_Err_first_in_merge_order:
  "g_states (fst (merge xs w)) = map the (filter (\<lambda>x. x \<noteq> None) xs)
   \<and> (Err (groupState (G ss tc d f)) = Some e \<longleftrightarrow>
        (\<exists>i<length ss. Err (ss ! i) = Some e \<and> (\<forall>j<i. Err (ss ! j) = None)))
   \<and> (Err (groupState (G ss tc d f)) = None \<longleftrightarrow> (\<forall>s\<in>set ss. Err s = None))
   \<and> (Err (groupState (G ss tc d f)) = Some e \<longrightarrow>
        Err (annotationState (G ss tc d f) label) = Some (Errorf label e)
        \<and> Error_text (Errorf label e) = label @ '': '' @ Error_text e)
   \<and> (Err (groupState (G ss tc d f)) = None \<longrightarrow> Err (annotationState (G ss tc d f) label) = None)"
proof -
  have some: "Err (groupState (G ss tc d f)) = Some e \<longleftrightarrow>
        (\<exists>i<length ss. Err (ss ! i) = Some e \<and> (\<forall>j<i. Err (ss ! j) = None))"
    unfolding Err.simps first_non_nil_Some
    by (rule iffI; clarsimp; rule_tac x = i in exI; simp)
  have none: "Err (groupState (G ss tc d f)) = None \<longleftrightarrow> (\<forall>s\<in>set ss. Err s = None)"
    by (simp add: first_non_nil_None)
  have ann: "Err (annotationState (G ss tc d f) label) =
      (case Err (groupState (G ss tc d f)) of Some err \<Rightarrow> Some (Errorf label err) | None \<Rightarrow> None)"
    by simp
  show ?thesis
  proof (intro conjI impI)
    show "g_states (fst (merge xs w)) = map the (filter (\<lambda>x. x \<noteq> None) xs)"
      by (rule merge_states)
    show "Err (groupState (G ss tc d f)) = Some e \<longleftrightarrow>
        (\<exists>i<length ss. Err (ss ! i) = Some e \<and> (\<forall>j<i. Err (ss ! j) = None))"
      by (rule some)
    show "Err (groupState (G ss tc d f)) = None \<longleftrightarrow> (\<forall>s\<in>set ss. Err s = None)"
      by (rule none)
    show "Error_text (Errorf label e) = label @ '': '' @ Error_text e"
      by simp
  next
    assume "Err (groupState (G ss tc d f)) = Some e"
    then show "Err (annotationState (G ss tc d f) label) = Some (Errorf label e)"
      by (simp only: ann option.case)
  next
    assume "Err (groupState (G ss tc d f)) = None"
    then show "Err (annotationState (G ss tc d f) label) = None"
      by (simp only: ann option.case)
  qed
qed

theorem group_Err_first_in_merge_order_witness:
  "Err (annotationState (G [emptyState, errState (G [] [] closedchan closedchan) (Some (New ''error1'')),
                             errState (G [] [] closedchan closedchan) (Some (New ''error2''))]
                           [] (Chan 0) (Chan 1)) ''test'')
     = Some (Errorf ''test'' (New ''error1''))
   \<and> Error_text (Errorf ''test'' (New ''error1'')) = ''test: error1''
   \<and> Err (annotationState (G [emptyState] [] (Chan 0) (Chan 1)) ''test'') = None"
  using group_Err_first_in_merge_order[of "[]" init
      "[emptyState, errState (G [] [] closedchan closedchan) (Some (New ''error1'')),
        errState (G [] [] closedchan closedchan) (Some (New ''error2''))]" "[]" "Chan 0" "Chan 1"
      "New ''error1''" "''test''"]
    group_Err_first_in_merge_order[of "[]" init "[emptyState]" "[]" "Chan 0" "Chan 1"
      "New ''error1''" "''test''"]
  by simp

section \<open>Closing twice\<close>

text \<open>
  C8: in a program that uses the package, when a goroutine that called \<^verbatim>\<open>close()\<close> of a
  state has come to its end, a second call of \<^verbatim>\<open>close()\<close> of that state is inert: it does
  not block, panic or close any channel, nor do the goroutines it starts, and it comes to
  its end; and whatever the program does after the second call has started, no channel is
  closed twice.
\<close>

theorem close_twice:
  assumes "built w T" and "i < length (goroutines w)" and "goroutines w ! i = close t"
    and "api\<^sup>*\<^sup>* (w, T) (w', T')" and "goroutines w' ! i = []"
  shows "inert (closed_chans w') (close t)
     \<and> (\<forall>w'' T''. api\<^sup>*\<^sup>* (go (close t) w', T') (w'', T'') \<longrightarrow>
           panicked w'' \<noteq> Some close_of_closed_channel)"
proof -
  have "safe w T []"
    using api_star_safe[OF _ safe_init] assms(1) unfolding built_def by blast
  then have "safe w T (close t)"
    using safe_program[of w T "[]" "close t"] assms(2,3) committed_close nth_mem by metis
  then have s': "safe w' T' (close t)"
    using api_star_safe[OF assms(4)] by blast
  then obtain P where P: "sound P w'" "guarded (made w') P (close t)"
    unfolding safe_def by blast
  then have pairs: "\<forall>d f. (d, f) \<in> P \<longrightarrow> f \<in> closed_chans w' \<longrightarrow> d \<in> closed_chans w'"
    unfolding sound_def by blast
  have "\<forall>c \<in> post (close t). is_closed (closed_chans w') c"
  proof
    fix c assume "c \<in> post (close t)"
    then have "is_closed (closed_chans w) c \<or> c \<in> post (goroutines w ! i)"
      using assms(3) by simp
    from api_star_post[OF assms(4,2) this] show "is_closed (closed_chans w') c"
      using assms(5) by simp
  qed
  from inert_close[OF pairs P(2) this] have 1: "inert (closed_chans w') (close t)" .
  have "safe (go (close t) w') T' (close t)" using s' by (rule safe_go)
  then have 2: "\<forall>w'' T''. api\<^sup>*\<^sup>* (go (close t) w', T') (w'', T'') \<longrightarrow>
           panicked w'' \<noteq> Some close_of_closed_channel"
    using api_star_safe unfolding safe_def by blast
  from 1 2 show ?thesis by blast
qed

theorem close_twice_witness:
  "goroutines (run [(2, 0), (1, 0), (1, 0), (1, 0), (1, 0), (0, 0), (0, 0), (2, 0), (2, 0), (2, 0)]
     \<lparr>closed_chans = {}, made = 4,
      goroutines =
        [[Recv (Chan 1), Once (Chan 0) []],
         [Recv (Chan 2), Go [Once closedchan [ForRange [] [], Close closedchan]],
          Recv closedchan, Once (Chan 1) []],
         [Once (Chan 2) [ForRange [0] [Chan 0], Close (Chan 3)]]],
      panicked = None\<rparr>) ! 2 = []
   \<and> inert (closed_chans
        (run [(2, 0), (1, 0), (1, 0), (1, 0), (1, 0), (0, 0), (0, 0), (2, 0), (2, 0), (2, 0)]
          \<lparr>closed_chans = {}, made = 4,
           goroutines =
             [[Recv (Chan 1), Once (Chan 0) []],
              [Recv (Chan 2), Go [Once closedchan [ForRange [] [], Close closedchan]],
               Recv closedchan, Once (Chan 1) []],
              [Once (Chan 2) [ForRange [0] [Chan 0], Close (Chan 3)]]],
           panicked = None\<rparr>))
       (close (groupState (G [shutdownState (G [] [] closedchan closedchan) (Chan 1) (Chan 0)] [0]
          (Chan 2) (Chan 3))))"
proof -
  let ?w = "\<lparr>closed_chans = {}, made = 4,
      goroutines =
        [[Recv (Chan 1), Once (Chan 0) []],
         [Recv (Chan 2), Go [Once closedchan [ForRange [] [], Close closedchan]],
          Recv closedchan, Once (Chan 1) []],
         [Once (Chan 2) [ForRange [0] [Chan 0], Close (Chan 3)]]],
      panicked = None\<rparr>"
  let ?evs = "[(2, 0), (1, 0), (1, 0), (1, 0), (1, 0), (0, 0), (0, 0), (2, 0), (2, 0), (2, 0)] :: (nat \<times> nat) list"
  let ?t = "groupState (G [shutdownState (G [] [] closedchan closedchan) (Chan 1) (Chan 0)] [0]
          (Chan 2) (Chan 3))"
  have 1: "(2::nat) < length (goroutines ?w)" by simp
  have 2: "goroutines ?w ! 2 = close ?t" by (simp add: group_close_def)
  have 3: "goroutines (run ?evs ?w) ! 2 = []"
    by (simp add: run_def sched_def)
  from close_twice[OF built_example 1 2 api_run 3] 3 show ?thesis by blast
qed

end
